theory Spec2Isabelle
  imports Main
begin

section \<open>Python values used by the docstring refactoring engine\<close>

text \<open>
  The engine of \<^verbatim>\<open>base_doc.py\<close> is Python 2 code (it uses print statements), so a
  line is a byte string: a \<^typ>\<open>string\<close> here. Integers are unbounded: \<^typ>\<open>int\<close>.
  The exceptions the modelled code can raise are the constructors of \<open>error\<close>.
\<close>

datatype error = IndexError | AttributeError | ValueError

subsection \<open>Lists: indexing, slices, insertion\<close>

text \<open>
  \<^verbatim>\<open>xs[i]\<close>: a negative index counts from the end, an index outside
  \<^verbatim>\<open>-len(xs) <= i < len(xs)\<close> raises IndexError.
\<close>

definition py_getitem :: "'a list \<Rightarrow> int \<Rightarrow> error + 'a" where
  "py_getitem xs i =
     (if 0 \<le> i \<and> i < int (length xs) then Inr (xs ! nat i)
      else if i < 0 \<and> - int (length xs) \<le> i then Inr (xs ! nat (int (length xs) + i))
      else Inl IndexError)"

text \<open>
  The bound of a slice \<^verbatim>\<open>xs[i:j]\<close>: a negative bound has the length added once,
  then the bound is clipped to \<^verbatim>\<open>0 .. len(xs)\<close>.
\<close>

definition py_slice_bound :: "nat \<Rightarrow> int \<Rightarrow> nat" where
  "py_slice_bound n i =
     (if i < 0 then nat (max 0 (int n + i)) else nat (min i (int n)))"

text \<open>\<^verbatim>\<open>xs[i:]\<close>\<close>

definition py_slice_from :: "'a list \<Rightarrow> int \<Rightarrow> 'a list" where
  "py_slice_from xs i = drop (py_slice_bound (length xs) i) xs"

text \<open>\<^verbatim>\<open>del xs[i:j]\<close>: nothing is deleted when the slice is empty.\<close>

definition py_del_slice :: "'a list \<Rightarrow> int \<Rightarrow> int \<Rightarrow> 'a list" where
  "py_del_slice xs i j =
     (let a = py_slice_bound (length xs) i;
          b = py_slice_bound (length xs) j
      in take a xs @ drop (max a b) xs)"

text \<open>\<^verbatim>\<open>xs.insert(i, x)\<close>: the position is clipped like a slice bound.\<close>

definition py_insert :: "'a list \<Rightarrow> int \<Rightarrow> 'a \<Rightarrow> 'a list" where
  "py_insert xs i x =
     (let a = py_slice_bound (length xs) i in take a xs @ x # drop a xs)"

subsection \<open>Byte strings\<close>

text \<open>
  \<^verbatim>\<open>str.isspace\<close> of one byte, which is also the class \<^verbatim>\<open>\s\<close> of the \<^verbatim>\<open>re\<close> module on
  byte strings: tab, line feed, vertical tab, form feed, carriage return, space.
\<close>

definition isspace :: "char \<Rightarrow> bool" where
  "isspace c \<longleftrightarrow>
     c = CHR 0x09 \<or> c = CHR 0x0A \<or> c = CHR 0x0B \<or> c = CHR 0x0C \<or> c = CHR 0x0D \<or> c = CHR '' ''"

definition lstrip :: "string \<Rightarrow> string" where
  "lstrip s = dropWhile isspace s"

definition rstrip :: "string \<Rightarrow> string" where
  "rstrip s = rev (dropWhile isspace (rev s))"

definition strip :: "string \<Rightarrow> string" where
  "strip s = rstrip (lstrip s)"

definition startswith :: "string \<Rightarrow> string \<Rightarrow> bool" where
  "startswith s p \<longleftrightarrow> take (length p) s = p"

text \<open>\<^verbatim>\<open>p in s\<close> for strings: \<open>p\<close> occurs in \<open>s\<close> as a substring.\<close>

fun contains :: "string \<Rightarrow> string \<Rightarrow> bool" where
  "contains [] p = (p = [])"
| "contains (c # cs) p = (startswith (c # cs) p \<or> contains cs p)"

subsection \<open>Line classification and regular expressions\<close>

text \<open>
  \<^verbatim>\<open>indent_regex.match(line)\<close> with \<^verbatim>\<open>indent_regex = re.compile(r'\s+')\<close>: the greedy run
  of whitespace at the start of the line, no match when the run is empty.
\<close>

definition indent_regex_match :: "string \<Rightarrow> string option" where
  "indent_regex_match line =
     (let g = takeWhile isspace line in if g = [] then None else Some g)"

definition get_indent :: "string \<Rightarrow> string" where
  "get_indent line =
     (case indent_regex_match line of None \<Rightarrow> [] | Some g \<Rightarrow> g)"

definition is_empty :: "string \<Rightarrow> bool" where
  "is_empty line \<longleftrightarrow> strip line = []"

text \<open>The classes \<^verbatim>\<open>[A-Za-z\\]\<close> and \<^verbatim>\<open>\w\<close> (which is \<^verbatim>\<open>[a-zA-Z0-9_]\<close> on byte strings).\<close>

definition is_letter :: "char \<Rightarrow> bool" where
  "is_letter c \<longleftrightarrow>
     (let n = (of_char c :: nat) in (65 \<le> n \<and> n \<le> 90) \<or> (97 \<le> n \<and> n \<le> 122))"

definition is_word_char :: "char \<Rightarrow> bool" where
  "is_word_char c \<longleftrightarrow>
     (let n = (of_char c :: nat) in is_letter c \<or> (48 \<le> n \<and> n \<le> 57) \<or> c = CHR ''_'')"

text \<open>
  \<^verbatim>\<open>re.match(r'\s*\S+\s*\Z', line2)\<close>: the three greedy runs have disjoint classes, so
  backtracking finds nothing that the greedy pass misses. The match, when there is one,
  spans the whole line, which is what \<^verbatim>\<open>group()\<close> returns.
\<close>

definition underline_match :: "string \<Rightarrow> string option" where
  "underline_match line2 =
     (let r1 = dropWhile isspace line2;
          token = takeWhile (\<lambda>c. \<not> isspace c) r1;
          r2 = dropWhile (\<lambda>c. \<not> isspace c) r1;
          r3 = dropWhile isspace r2
      in if token \<noteq> [] \<and> r3 = [] then Some line2 else None)"

text \<open>
  \<^verbatim>\<open>re.sub(r'[A-Za-z\\]|\b\s', repl, text)\<close>. Both alternatives match exactly one
  character, so every character is tested where it stands: \<open>prev\<close> is the character before
  it in the text (none at the start), and \<^verbatim>\<open>\b\<close> before a whitespace character holds when
  the character before is a word character.
\<close>

fun sub_underline :: "char \<Rightarrow> char option \<Rightarrow> string \<Rightarrow> string" where
  "sub_underline repl prev [] = []"
| "sub_underline repl prev (c # cs) =
     (if is_letter c \<or> c = CHR 0x5C
         \<or> ((case prev of None \<Rightarrow> False | Some p \<Rightarrow> is_word_char p) \<noteq> is_word_char c \<and> isspace c)
      then repl else c) # sub_underline repl (Some c) cs"

definition expected_underline :: "char \<Rightarrow> string \<Rightarrow> string" where
  "expected_underline repl text = sub_underline repl None text"

text \<open>
  \<^verbatim>\<open>re.split('\s\:\s?', header, maxsplit=1)\<close>: the text before the leftmost whitespace
  character followed by a colon, and the text after the colon and one more whitespace
  character when there is one; the whole text alone when nothing matches.
\<close>

fun split_colon :: "string \<Rightarrow> string \<Rightarrow> string list" where
  "split_colon acc [] = [rev acc]"
| "split_colon acc (c # cs) =
     (if isspace c \<and> cs \<noteq> [] \<and> hd cs = CHR '':'' then
        [rev acc, (let r = tl cs in if r \<noteq> [] \<and> isspace (hd r) then tl r else r)]
      else split_colon (c # acc) cs)"

definition re_split_colon :: "string \<Rightarrow> string list" where
  "re_split_colon header = split_colon [] header"

text \<open>
  \<^verbatim>\<open>s.split(sep)\<close> for a non-empty separator: the pieces between the occurrences of
  \<open>sep\<close> found from left to right without overlap.
\<close>

fun split_sep :: "string \<Rightarrow> string \<Rightarrow> string \<Rightarrow> string list" where
  "split_sep sep acc [] = [rev acc]"
| "split_sep sep acc (c # cs) =
     (if startswith (c # cs) sep then rev acc # split_sep sep [] (drop (length sep - 1) cs)
      else split_sep sep (c # acc) cs)"

definition py_split :: "string \<Rightarrow> string \<Rightarrow> string list" where
  "py_split s sep = split_sep sep [] s"

text \<open>
  \<^verbatim>\<open>repr\<close> of a byte string: double quotes when the string has a single quote and no
  double quote, single quotes otherwise; the quote and the backslash are escaped with a
  backslash, tab, line feed and carriage return by their letter, and every other byte
  outside the printable ASCII range as \<^verbatim>\<open>\xNN\<close>.
\<close>

definition hex_digit :: "nat \<Rightarrow> char" where
  "hex_digit n = ''0123456789abcdef'' ! (n mod 16)"

definition repr_char :: "char \<Rightarrow> char \<Rightarrow> string" where
  "repr_char quote c =
     (let n = (of_char c :: nat) in
      if c = quote \<or> c = CHR 0x5C then [CHR 0x5C, c]
      else if c = CHR 0x09 then [CHR 0x5C, CHR ''t'']
      else if c = CHR 0x0A then [CHR 0x5C, CHR ''n'']
      else if c = CHR 0x0D then [CHR 0x5C, CHR ''r'']
      else if n < 32 \<or> 127 \<le> n then [CHR 0x5C, CHR ''x'', hex_digit (n div 16), hex_digit n]
      else [c])"

definition repr :: "string \<Rightarrow> string" where
  "repr s =
     (let quote = (if CHR 0x27 \<in> set s \<and> CHR 0x22 \<notin> set s then CHR 0x22 else CHR 0x27)
      in quote # concat (map (repr_char quote) s) @ [quote])"

text \<open>\<^verbatim>\<open>s.strip("'")\<close>\<close>

definition strip_quotes :: "string \<Rightarrow> string" where
  "strip_quotes s =
     rev (dropWhile (\<lambda>c. c = CHR 0x27) (rev (dropWhile (\<lambda>c. c = CHR 0x27) s)))"

section \<open>The line buffer of BaseDoc\<close>

text \<open>
  The attributes of a \<^verbatim>\<open>BaseDoc\<close> object that the engine reads and writes. The flag
  \<^verbatim>\<open>verbose\<close> only switches printing and is left out.
\<close>

record doc =
  docstring :: "string list"
  index :: int
  headers :: "string \<rightharpoonup> string"

text \<open>
  A method is a function from the object to an exception or to its return value and the
  object afterwards.
\<close>

type_synonym 'a py_method = "doc \<Rightarrow> error + ('a \<times> doc)"

text \<open>The property \<^verbatim>\<open>eol\<close>.\<close>

definition eol :: "doc \<Rightarrow> bool" where
  "eol s \<longleftrightarrow> index s \<ge> int (length (docstring s))"

definition read :: "string py_method" where
  "read s =
     (case py_getitem (docstring s) (index s) of
        Inl e \<Rightarrow> Inl e
      | Inr line \<Rightarrow> Inr (line, s\<lparr>index := index s + 1\<rparr>))"

text \<open>\<^verbatim>\<open>peek\<close> catches the IndexError of the list access, and only that exception.\<close>

definition peek :: "int \<Rightarrow> string py_method" where
  "peek ahead s =
     (let position = index s + ahead in
      case py_getitem (docstring s) position of
        Inl IndexError \<Rightarrow> Inr ([], s)
      | Inl e \<Rightarrow> Inl e
      | Inr line \<Rightarrow> Inr (line, s))"

definition remove_lines :: "int \<Rightarrow> int \<Rightarrow> unit py_method" where
  "remove_lines i count s =
     Inr ((), s\<lparr>docstring := py_del_slice (docstring s) i (i + count)\<rparr>)"

text \<open>
  \<^verbatim>\<open>insert_lines\<close> inserts the lines one by one at the same position, last line first.
\<close>

definition insert_lines :: "string list \<Rightarrow> int \<Rightarrow> unit py_method" where
  "insert_lines lines i s =
     Inr ((), s\<lparr>docstring := foldl (\<lambda>d line. py_insert d i line) (docstring s) (rev lines)\<rparr>)"

text \<open>
  \<^verbatim>\<open>seek_to_next_non_empty_line\<close> walks over a copy of the lines from the cursor on and
  counts the cursor up until it meets a line that is not empty.
\<close>

fun seek_loop :: "string list \<Rightarrow> int \<Rightarrow> int" where
  "seek_loop [] i = i"
| "seek_loop (line # rest) i = (if \<not> is_empty line then i else seek_loop rest (i + 1))"

definition seek_to_next_non_empty_line :: "unit py_method" where
  "seek_to_next_non_empty_line s =
     Inr ((), s\<lparr>index := seek_loop (py_slice_from (docstring s) (index s)) (index s)\<rparr>)"

section \<open>Section headers\<close>

text \<open>
  \<^verbatim>\<open>is_section\<close> returns \<^verbatim>\<open>False\<close> (here \<open>None\<close>) or the stripped header line. The
  caller tests the result for truth, and an empty string is false in Python.
\<close>

definition is_section :: "string option py_method" where
  "is_section s =
     (if eol s then Inr (None, s)
      else
        case peek 0 s of Inl e \<Rightarrow> Inl e | Inr (header, s1) \<Rightarrow>
        (case peek 1 s1 of Inl e \<Rightarrow> Inl e | Inr (line2, s2) \<Rightarrow>
          (case underline_match line2 of
             None \<Rightarrow> Inr (None, s2)
           | Some underline \<Rightarrow>
               let striped_header = rstrip header;
                   expected_underline1 = expected_underline (CHR ''-'') striped_header;
                   expected_underline2 = expected_underline (CHR ''='') striped_header
               in if rstrip underline = expected_underline1 \<or> rstrip underline = expected_underline2
                  then Inr (Some (strip header), s2)
                  else Inr (None, s2))))"

definition truthy :: "string option \<Rightarrow> bool" where
  "truthy r \<longleftrightarrow> (case r of None \<Rightarrow> False | Some h \<Rightarrow> h \<noteq> [])"

section \<open>Refactoring a section\<close>

definition refactor_header :: "string \<Rightarrow> string list py_method" where
  "refactor_header header s =
     (let i = index s in
      case peek 0 s of Inl e \<Rightarrow> Inl e | Inr (line, s1) \<Rightarrow>
      (let indent = get_indent line in
       case remove_lines i 2 s1 of Inl e \<Rightarrow> Inl e | Inr (_, s2) \<Rightarrow>
       (let header' = strip_quotes (repr header);
            descriptions = [indent @ ''.. rubric:: '' @ header', []]
        in
        case insert_lines descriptions i s2 of Inl e \<Rightarrow> Inl e | Inr (_, s3) \<Rightarrow>
          Inr (descriptions, s3\<lparr>index := index s3 + int (length descriptions)\<rparr>))))"

text \<open>
  \<^verbatim>\<open>_refactor\<close> looks the method \<^verbatim>\<open>_refactor_<postfix>\<close> up on the object. The class
  \<^verbatim>\<open>BaseDoc\<close> has one such method, \<^verbatim>\<open>_refactor_header\<close>; for any other postfix
  \<^verbatim>\<open>getattr\<close> raises AttributeError.
\<close>

definition refactor :: "string \<Rightarrow> unit py_method" where
  "refactor header s =
     (let refactor_postfix = (case headers s header of None \<Rightarrow> ''header'' | Some p \<Rightarrow> p) in
      if refactor_postfix = ''header'' then
        (case refactor_header header s of Inl e \<Rightarrow> Inl e | Inr (_, s1) \<Rightarrow> Inr ((), s1))
      else Inl AttributeError)"

section \<open>The parse loop\<close>

text \<open>One turn of the loop of \<^verbatim>\<open>parse\<close>, for a state that is not at end of input.\<close>

definition parse_step :: "unit py_method" where
  "parse_step s =
     (case is_section s of Inl e \<Rightarrow> Inl e | Inr (header, s1) \<Rightarrow>
      if truthy header then
        (case peek 2 s1 of Inl e \<Rightarrow> Inl e | Inr (line, s2) \<Rightarrow>
          (case (if is_empty line then remove_lines (index s2 + 2) 1 s2 else Inr ((), s2)) of
             Inl e \<Rightarrow> Inl e
           | Inr (_, s3) \<Rightarrow> refactor (the header) s3))
      else
        seek_to_next_non_empty_line (s1\<lparr>index := index s1 + 1\<rparr>))"

function parse_loop :: "unit py_method" where
  "parse_loop s =
     (if eol s then Inr ((), s)
      else case parse_step s of Inl e \<Rightarrow> Inl e | Inr (_, s') \<Rightarrow> parse_loop s')"
  by pat_completeness auto

text \<open>
  The loop ends: a cursor below zero moves up in every turn, and from zero on the number
  of lines after the cursor goes down in every turn.
\<close>

lemma length_py_insert [simp]: "length (py_insert xs i x) = Suc (length xs)"
  by (simp add: py_insert_def Let_def)

lemma length_py_del_slice_le: "length (py_del_slice xs i j) \<le> length xs"
  by (simp add: py_del_slice_def Let_def)

lemma length_py_del_slice_less:
  "0 \<le> i \<Longrightarrow> i < int (length xs) \<Longrightarrow> i < j \<Longrightarrow> length (py_del_slice xs i j) < length xs"
  by (auto simp: py_del_slice_def py_slice_bound_def Let_def min_def max_def)

lemma length_py_del_slice_beyond:
  "0 \<le> i \<Longrightarrow> i < int (length xs) \<Longrightarrow> i < k \<Longrightarrow> i < int (length (py_del_slice xs k j))"
  by (auto simp: py_del_slice_def py_slice_bound_def Let_def min_def max_def)

lemma peek_same: "peek a s = Inr (l, s') \<Longrightarrow> s' = s"
  by (auto simp: peek_def Let_def split: sum.splits error.splits)

lemma is_section_same: "is_section s = Inr (h, s') \<Longrightarrow> s' = s"
  by (auto simp: is_section_def Let_def
      split: sum.splits if_splits option.splits prod.splits dest!: peek_same)

lemma seek_loop_ge: "i \<le> seek_loop ls i"
proof (induction ls arbitrary: i)
  case Nil
  then show ?case by simp
next
  case (Cons l ls)
  have "i + 1 \<le> seek_loop ls (i + 1)" by (rule Cons.IH)
  then show ?case by simp
qed

lemma seek_effect:
  "seek_to_next_non_empty_line s = Inr (u, s') \<Longrightarrow>
     docstring s' = docstring s \<and> index s \<le> index s'"
  by (auto simp: seek_to_next_non_empty_line_def seek_loop_ge)

lemma refactor_header_effect:
  assumes "refactor_header h s = Inr (d, s')"
  shows "index s' = index s + 2"
    and "length (docstring s') = length (py_del_slice (docstring s) (index s) (index s + 2)) + 2"
  using assms
  by (auto simp: refactor_header_def Let_def remove_lines_def insert_lines_def
      split: sum.splits prod.splits dest!: peek_same)

lemma parse_step_progress:
  assumes "\<not> eol s" and "parse_step s = Inr (u, s')"
  shows "index s < index s'"
    and "0 \<le> index s \<Longrightarrow>
         int (length (docstring s')) - index s' < int (length (docstring s)) - index s"
proof -
  obtain h where sec: "is_section s = Inr (h, s)"
    using assms(2)
    by (auto simp: parse_step_def split: sum.splits prod.splits dest: is_section_same)
  show "index s < index s'"
    using assms(2) sec
    by (auto simp: parse_step_def refactor_def remove_lines_def Let_def
        split: sum.splits prod.splits if_splits
        dest!: peek_same seek_effect refactor_header_effect(1))
  show "int (length (docstring s')) - index s' < int (length (docstring s)) - index s"
    if nn: "0 \<le> index s"
  proof (cases "truthy h")
    case False
    then show ?thesis using assms(2) sec
      by (auto simp: parse_step_def dest!: seek_effect)
  next
    case True
    from assms(1) have lt: "index s < int (length (docstring s))" by (simp add: eol_def)
    obtain s3 d where s3: "refactor_header (the h) s3 = Inr (d, s')"
      and idx: "index s3 = index s"
      and ds: "docstring s3 = docstring s
               \<or> docstring s3 = py_del_slice (docstring s) (index s + 2) (index s + 2 + 1)"
      using assms(2) sec True
      by (auto simp: parse_step_def refactor_def remove_lines_def Let_def
          split: sum.splits prod.splits if_splits dest!: peek_same)
    from ds have le: "length (docstring s3) \<le> length (docstring s)"
      using length_py_del_slice_le by auto
    from ds have gt: "index s < int (length (docstring s3))"
      using lt nn length_py_del_slice_beyond [of "index s" "docstring s" "index s + 2"] by auto
    have "length (py_del_slice (docstring s3) (index s3) (index s3 + 2)) < length (docstring s3)"
      using length_py_del_slice_less [of "index s3" "docstring s3" "index s3 + 2"] gt nn idx
      by simp
    then show ?thesis
      using refactor_header_effect [OF s3] le idx by simp
  qed
qed

termination parse_loop
proof (relation "measures [\<lambda>s. nat (- index s), \<lambda>s. nat (int (length (docstring s)) - index s)]")
  show "wf (measures [\<lambda>s. nat (- index s), \<lambda>s. nat (int (length (docstring s)) - index s)])"
    by simp
next
  fix s :: doc and x2 x y
  assume "\<not> eol s" and "parse_step s = Inr x2" and "(x, y) = x2"
  then have st: "parse_step s = Inr (x, y)" by simp
  from parse_step_progress [OF \<open>\<not> eol s\<close> st] \<open>\<not> eol s\<close>
  show "(y, s) \<in> measures [\<lambda>s. nat (- index s), \<lambda>s. nat (int (length (docstring s)) - index s)]"
    by (cases "0 \<le> index s") (auto simp: eol_def)
qed

declare parse_loop.simps [simp del]

definition parse :: "unit py_method" where
  "parse s =
     (case seek_to_next_non_empty_line (s\<lparr>index := 0\<rparr>) of
        Inl e \<Rightarrow> Inl e
      | Inr (_, s1) \<Rightarrow> parse_loop s1)"

text \<open>
  \<^verbatim>\<open>BaseDoc(lines, headers)\<close> for a list of lines: the constructor stores the lines and
  the headers, sets the cursor to zero and parses. The result here is the list of lines
  the object holds afterwards.
\<close>

definition base_doc :: "string list \<Rightarrow> (string \<rightharpoonup> string) \<Rightarrow> error + string list" where
  "base_doc lines hdrs =
     (case parse \<lparr>docstring = lines, index = 0, headers = hdrs\<rparr> of
        Inl e \<Rightarrow> Inl e
      | Inr (_, s) \<Rightarrow> Inr (docstring s))"

section \<open>Field blocks\<close>

function block_loop :: "string \<Rightarrow> string list \<Rightarrow> string list py_method" where
  "block_loop indent field s =
     (if eol s then Inr (field, s)
      else
        case peek 0 s of Inl e \<Rightarrow> Inl e | Inr (peek_0, s1) \<Rightarrow>
        (case peek 1 s1 of Inl e \<Rightarrow> Inl e | Inr (peek_1, s2) \<Rightarrow>
           if is_empty peek_0 \<and> \<not> startswith peek_1 indent then Inr (field, s2)
           else if \<not> is_empty peek_0 \<and> \<not> startswith peek_0 indent then Inr (field, s2)
           else
             (case read s2 of Inl e \<Rightarrow> Inl e | Inr (line, s3) \<Rightarrow>
                block_loop indent (field @ [rstrip line]) s3)))"
  by pat_completeness auto

lemma read_effect:
  "read s = Inr (line, s') \<Longrightarrow> s' = s\<lparr>index := index s + 1\<rparr>"
  by (auto simp: read_def split: sum.splits)

termination block_loop
proof (relation "measure (\<lambda>(indent, field, s). nat (int (length (docstring s)) - index s))")
  show "wf (measure (\<lambda>(indent, field, s). nat (int (length (docstring s)) - index s)))"
    by simp
next
  fix indent :: string and field :: "string list" and s :: doc
    and x2 x y x2a xa ya x2b xb yb
  assume "\<not> eol s" and "peek 0 s = Inr x2" and "(x, y) = x2"
    and "peek 1 y = Inr x2a" and "(xa, ya) = x2a"
    and "read ya = Inr x2b" and "(xb, yb) = x2b"
  then have "y = s" and "ya = s" and "yb = s\<lparr>index := index s + 1\<rparr>"
    by (auto dest!: peek_same read_effect)
  with \<open>\<not> eol s\<close>
  show "((indent, field @ [rstrip xb], yb), indent, field, s)
        \<in> measure (\<lambda>(indent, field, s). nat (int (length (docstring s)) - index s))"
    by (simp add: eol_def)
qed

declare block_loop.simps [simp del]

definition get_next_block :: "string list py_method" where
  "get_next_block s =
     (let start = index s in
      case read s of Inl e \<Rightarrow> Inl e | Inr (field_header, s1) \<Rightarrow>
      (let indent = get_indent field_header @ '' '';
           field = [field_header]
       in
       case block_loop indent field s1 of Inl e \<Rightarrow> Inl e | Inr (field', s2) \<Rightarrow>
        (case remove_lines start (int (length field')) s2 of Inl e \<Rightarrow> Inl e | Inr (_, s3) \<Rightarrow>
           Inr (field', s3\<lparr>index := start\<rparr>))))"

text \<open>
  \<^verbatim>\<open>parse_field\<close> reads nothing of the object but the flag that switches printing, so
  it is a function of the lines alone. Unpacking the result of \<^verbatim>\<open>re.split\<close> into two
  names raises ValueError unless the list has two elements.
\<close>

definition parse_field :: "string list \<Rightarrow> error + (string \<times> string \<times> string list)" where
  "parse_field lines =
     (case py_getitem lines 0 of Inl e \<Rightarrow> Inl e | Inr line0 \<Rightarrow>
      (let header = strip line0 in
       case (if contains header '' :''
             then (case re_split_colon header of [a, b] \<Rightarrow> Inr (a, b) | _ \<Rightarrow> Inl ValueError)
             else Inr (header, []))
       of Inl e \<Rightarrow> Inl e
        | Inr (arg_name, arg_type) \<Rightarrow>
            if length lines > 1
            then Inr (strip arg_name, strip arg_type, py_slice_from (map rstrip lines) 1)
            else Inr (strip arg_name, strip arg_type, [[]])))"

section \<open>Definition items with alternative classifiers\<close>

text \<open>
  The result of \<^verbatim>\<open>OrDefinitionItem.parse\<close> is an \<^verbatim>\<open>Item(term, classifiers, definition)\<close>.
\<close>

record item =
  item_term :: string
  item_classifiers :: "string list"
  item_definition :: "string list"

text \<open>
  \<^verbatim>\<open>OrDefinitionItem.parse\<close>. Two names it imports are defined outside the files at
  hand and are parameters here: \<open>header_split\<close> is \<^verbatim>\<open>header_regex.split(header, maxsplit=1)\<close>
  and \<open>trim_indent\<close> is \<^verbatim>\<open>sectiondoc.util.trim_indent\<close>.
\<close>

definition or_definition_item_parse ::
  "(string \<Rightarrow> string list) \<Rightarrow> (string list \<Rightarrow> string list) \<Rightarrow> string list \<Rightarrow> error + item" where
  "or_definition_item_parse header_split trim_indent lines =
     (case py_getitem lines 0 of Inl e \<Rightarrow> Inl e | Inr line0 \<Rightarrow>
      (let header = strip line0 in
       case (if contains header '' :''
             then (case header_split header of [a, b] \<Rightarrow> Inr (a, b) | _ \<Rightarrow> Inl ValueError)
             else Inr (header, []))
       of Inl e \<Rightarrow> Inl e
        | Inr (term_text, classifier_text) \<Rightarrow>
            let classifiers = map strip (py_split classifier_text ''or'');
                classifiers = (if classifiers = [[]] then [] else classifiers);
                trimed_lines =
                  (if length lines > 1 then trim_indent (py_slice_from lines 1) else [[]]);
                definition_lines = map rstrip trimed_lines
            in Inr \<lparr>item_term = strip term_text, item_classifiers = classifiers,
                     item_definition = definition_lines\<rparr>))"

section \<open>The words of the specification\<close>

text \<open>
  The words of the specification, to compare the code with. A line is a single token when
  its stripped form is not empty and has no whitespace inside. The expected underline of a
  header replaces, position by position, every letter, every backslash and every
  whitespace character that follows a word character by the underline character.
\<close>

definition single_token :: "string \<Rightarrow> bool" where
  "single_token l \<longleftrightarrow> strip l \<noteq> [] \<and> list_all (\<lambda>c. \<not> isspace c) (strip l)"

definition spec_underline :: "char \<Rightarrow> string \<Rightarrow> string" where
  "spec_underline repl h =
     map (\<lambda>i. if is_letter (h ! i) \<or> h ! i = CHR 0x5C
                  \<or> (isspace (h ! i) \<and> 0 < i \<and> is_word_char (h ! (i - 1)))
               then repl else h ! i) [0..<length h]"

text \<open>The line \<open>k\<close> places after the cursor, the empty string beyond the end.\<close>

definition line_after :: "doc \<Rightarrow> int \<Rightarrow> string" where
  "line_after s k =
     (if index s + k < int (length (docstring s)) then docstring s ! nat (index s + k) else [])"

text \<open>
  The continuation rule in the words of the specification: the number of lines that
  continue a block, given the body indent and the lines after the header line. A blank
  line, one of whitespace only, continues the block only if the line after it starts with
  the indent (a line that does not exist starts with nothing); any other line continues it
  only if it starts with the indent itself.
\<close>

fun continuation :: "string \<Rightarrow> string list \<Rightarrow> nat" where
  "continuation indent [] = 0"
| "continuation indent (l # rest) =
     (if list_all isspace l then
        (if take (length indent) (case rest of [] \<Rightarrow> [] | next_line # _ \<Rightarrow> next_line) = indent
         then Suc (continuation indent rest) else 0)
      else if take (length indent) l = indent then Suc (continuation indent rest) else 0)"

text \<open>
  Position \<open>i\<close> of a list of lines is recognised as a section header when \<^verbatim>\<open>is_section\<close>,
  with the cursor at \<open>i\<close>, returns a result that is true in Python. A list of lines is free
  of headers when no position of it is recognised.
\<close>

definition header_at :: "string list \<Rightarrow> nat \<Rightarrow> bool" where
  "header_at lines i \<longleftrightarrow>
     (case is_section \<lparr>docstring = lines, index = int i, headers = Map.empty\<rparr> of
        Inl e \<Rightarrow> False
      | Inr (r, s) \<Rightarrow> truthy r)"

definition header_free :: "string list \<Rightarrow> bool" where
  "header_free lines \<longleftrightarrow> list_all (\<lambda>i. \<not> header_at lines i) [0..<length lines]"

text \<open>The line that the default rewrite puts in the place of a header line.\<close>

definition rubric_line :: "string \<Rightarrow> string" where
  "rubric_line line = get_indent line @ ''.. rubric:: '' @ strip_quotes (repr (strip line))"

text \<open>
  The cursor invariant of the buffer, and the property that no position before the cursor
  is recognised as a header.
\<close>

definition cursor_ok :: "doc \<Rightarrow> bool" where
  "cursor_ok s \<longleftrightarrow> 0 \<le> index s \<and> index s \<le> int (length (docstring s))"

definition scanned :: "doc \<Rightarrow> bool" where
  "scanned s \<longleftrightarrow> (\<forall>i < nat (index s). \<not> header_at (docstring s) i)"

text \<open>The state after the line that follows a header and its underline is removed if blank.\<close>

definition after_blank_removal :: "doc \<Rightarrow> doc" where
  "after_blank_removal s =
     (if is_empty (line_after s 2)
      then s\<lparr>docstring := take (nat (index s) + 2) (docstring s)
                 @ drop (nat (index s) + 3) (docstring s)\<rparr>
      else s)"

section \<open>The states of a parse run\<close>

text \<open>
  The states that a run of \<^verbatim>\<open>parse\<close> goes through, in order: the state after each
  operation. The three functions follow \<^verbatim>\<open>_refactor_header\<close>, \<^verbatim>\<open>_refactor\<close> and one
  turn of the loop statement by statement, and list the object after each statement where
  the methods themselves return it. A run that raises stops the list.
\<close>

definition refactor_header_states :: "string \<Rightarrow> doc \<Rightarrow> doc list" where
  "refactor_header_states header s =
     (let i = index s in
      case peek 0 s of Inl e \<Rightarrow> [] | Inr (line, s1) \<Rightarrow>
      (let indent = get_indent line in
       case remove_lines i 2 s1 of Inl e \<Rightarrow> [s1] | Inr (_, s2) \<Rightarrow>
       (let header' = strip_quotes (repr header);
            descriptions = [indent @ ''.. rubric:: '' @ header', []]
        in
        case insert_lines descriptions i s2 of Inl e \<Rightarrow> [s1, s2] | Inr (_, s3) \<Rightarrow>
          [s1, s2, s3, s3\<lparr>index := index s3 + int (length descriptions)\<rparr>])))"

definition refactor_states :: "string \<Rightarrow> doc \<Rightarrow> doc list" where
  "refactor_states header s =
     (let refactor_postfix = (case headers s header of None \<Rightarrow> ''header'' | Some p \<Rightarrow> p) in
      if refactor_postfix = ''header'' then refactor_header_states header s else [])"

definition parse_step_states :: "doc \<Rightarrow> doc list" where
  "parse_step_states s =
     (case is_section s of Inl e \<Rightarrow> [] | Inr (header, s1) \<Rightarrow>
      s1 # (if truthy header then
        (case peek 2 s1 of Inl e \<Rightarrow> [] | Inr (line, s2) \<Rightarrow>
          s2 # (case (if is_empty line then remove_lines (index s2 + 2) 1 s2 else Inr ((), s2)) of
             Inl e \<Rightarrow> []
           | Inr (_, s3) \<Rightarrow> s3 # refactor_states (the header) s3))
      else
        (let s2 = s1\<lparr>index := index s1 + 1\<rparr> in
         s2 # (case seek_to_next_non_empty_line s2 of Inl e \<Rightarrow> [] | Inr (_, s3) \<Rightarrow> [s3]))))"

function parse_loop_states :: "doc \<Rightarrow> doc list" where
  "parse_loop_states s =
     (if eol s then []
      else parse_step_states s
           @ (case parse_step s of Inl e \<Rightarrow> [] | Inr (_, s') \<Rightarrow> parse_loop_states s'))"
  by pat_completeness auto

termination parse_loop_states
proof (relation "measures [\<lambda>s. nat (- index s), \<lambda>s. nat (int (length (docstring s)) - index s)]")
  show "wf (measures [\<lambda>s. nat (- index s), \<lambda>s. nat (int (length (docstring s)) - index s)])"
    by simp
next
  fix s :: doc and x2 x y
  assume "\<not> eol s" and "parse_step s = Inr x2" and "(x, y) = x2"
  then have st: "parse_step s = Inr (x, y)" by simp
  from parse_step_progress [OF \<open>\<not> eol s\<close> st] \<open>\<not> eol s\<close>
  show "(y, s) \<in> measures [\<lambda>s. nat (- index s), \<lambda>s. nat (int (length (docstring s)) - index s)]"
    by (cases "0 \<le> index s") (auto simp: eol_def)
qed

declare parse_loop_states.simps [simp del]

definition parse_states :: "doc \<Rightarrow> doc list" where
  "parse_states s =
     (let s0 = s\<lparr>index := 0\<rparr> in
      s0 # (case seek_to_next_non_empty_line s0 of
              Inl e \<Rightarrow> []
            | Inr (_, s1) \<Rightarrow> s1 # parse_loop_states s1))"

text \<open>
  The states inside \<^verbatim>\<open>get_next_block\<close>: after the header line is read, after the loop,
  after \<^verbatim>\<open>remove_lines\<close> and after the cursor is set back to the start.
\<close>

definition get_next_block_states :: "doc \<Rightarrow> doc list" where
  "get_next_block_states s =
     (let start = index s in
      case read s of Inl e \<Rightarrow> [] | Inr (field_header, s1) \<Rightarrow>
      (let indent = get_indent field_header @ '' '';
           field = [field_header]
       in
       case block_loop indent field s1 of Inl e \<Rightarrow> [s1] | Inr (field', s2) \<Rightarrow>
        (case remove_lines start (int (length field')) s2 of
           Inl e \<Rightarrow> [s1, s2]
         | Inr (_, s3) \<Rightarrow> [s1, s2, s3, s3\<lparr>index := start\<rparr>])))"

section \<open>The cursor operations\<close>

lemma py_getitem_in_range:
  "0 \<le> i \<Longrightarrow> i < int (length xs) \<Longrightarrow> py_getitem xs i = Inr (xs ! nat i)"
  by (simp add: py_getitem_def)

lemma py_getitem_beyond:
  "int (length xs) \<le> i \<Longrightarrow> py_getitem xs i = Inl IndexError"
  by (simp add: py_getitem_def)

lemma py_getitem_error: "py_getitem xs i = Inl e \<Longrightarrow> e = IndexError"
  by (auto simp: py_getitem_def split: if_splits)

text \<open>
  Claim C7. \<^verbatim>\<open>read\<close> called at end of input (\<^verbatim>\<open>index >= len(docstring)\<close>) fails with
  IndexError, the out-of-range error of Python; at any other cursor position of the
  buffer it returns the line at \<^verbatim>\<open>index\<close>, adds exactly 1 to \<^verbatim>\<open>index\<close> and leaves the
  lines as they are.
\<close>

theorem read_at_cursor:
  assumes "0 \<le> index s"
  shows "read s =
     (if eol s then Inl IndexError
      else Inr (docstring s ! nat (index s), s\<lparr>index := index s + 1\<rparr>))"
  using assms
  by (simp add: read_def eol_def py_getitem_in_range py_getitem_beyond)

theorem read_at_cursor_witness:
  "read \<lparr>docstring = [''a'', ''b''], index = 2, headers = Map.empty\<rparr> = Inl IndexError
   \<and> read \<lparr>docstring = [''a'', ''b''], index = 1, headers = Map.empty\<rparr>
       = Inr (''b'', \<lparr>docstring = [''a'', ''b''], index = 2, headers = Map.empty\<rparr>)"
  using read_at_cursor [of "\<lparr>docstring = [''a'', ''b''], index = 2, headers = Map.empty\<rparr>"]
    read_at_cursor [of "\<lparr>docstring = [''a'', ''b''], index = 1, headers = Map.empty\<rparr>"]
  by (simp add: eol_def)

section \<open>Lookahead\<close>

lemma peek_eq:
  "peek a s = Inr (case py_getitem (docstring s) (index s + a) of Inl e \<Rightarrow> [] | Inr l \<Rightarrow> l, s)"
  by (auto simp: peek_def Let_def split: sum.splits error.splits dest: py_getitem_error)

text \<open>
  Claim C8. \<^verbatim>\<open>peek\<close> never raises and returns the object as it was, whatever the cursor
  and the offset are. With a cursor and an offset that are not negative, it returns the
  line at \<^verbatim>\<open>index + ahead\<close> when that position is inside the buffer, and the empty string
  when the position is at the end or beyond it.
\<close>

theorem peek_total:
  "(\<exists>line. peek ahead s = Inr (line, s))
   \<and> (0 \<le> index s \<and> 0 \<le> ahead \<longrightarrow>
        peek ahead s =
          Inr (if index s + ahead < int (length (docstring s))
               then docstring s ! nat (index s + ahead) else [], s))"
  by (simp add: peek_eq py_getitem_def)

theorem peek_total_witness:
  "peek 1 \<lparr>docstring = [''a'', ''b''], index = 0, headers = Map.empty\<rparr>
     = Inr (''b'', \<lparr>docstring = [''a'', ''b''], index = 0, headers = Map.empty\<rparr>)
   \<and> peek 2 \<lparr>docstring = [''a'', ''b''], index = 0, headers = Map.empty\<rparr>
     = Inr ([], \<lparr>docstring = [''a'', ''b''], index = 0, headers = Map.empty\<rparr>)"
  using peek_total [of 1 "\<lparr>docstring = [''a'', ''b''], index = 0, headers = Map.empty\<rparr>"]
    peek_total [of 2 "\<lparr>docstring = [''a'', ''b''], index = 0, headers = Map.empty\<rparr>"]
  by simp

section \<open>Facts about strings\<close>

lemma startswith_append: "startswith (p @ ys) p"
  by (simp add: startswith_def)

lemma startswith_iff: "startswith s p \<longleftrightarrow> (\<exists>ys. s = p @ ys)"
  by (metis append_eq_conv_conj startswith_def)

lemma contains_iff: "contains s p \<longleftrightarrow> (\<exists>xs ys. s = xs @ p @ ys)"
proof (induction s)
  case Nil
  then show ?case by auto
next
  case (Cons c cs)
  show ?case
  proof
    assume "contains (c # cs) p"
    then consider "startswith (c # cs) p" | "contains cs p" by auto
    then show "\<exists>xs ys. c # cs = xs @ p @ ys"
    proof cases
      case 1
      then obtain ys where "c # cs = p @ ys" by (auto simp: startswith_iff)
      then have "c # cs = [] @ p @ ys" by simp
      then show ?thesis by blast
    next
      case 2
      then obtain xs ys where "cs = xs @ p @ ys" using Cons.IH by blast
      then have "c # cs = (c # xs) @ p @ ys" by simp
      then show ?thesis by blast
    qed
  next
    assume "\<exists>xs ys. c # cs = xs @ p @ ys"
    then obtain xs ys where e: "c # cs = xs @ p @ ys" by blast
    show "contains (c # cs) p"
    proof (cases xs)
      case Nil
      with e have "startswith (c # cs) p" by (auto simp: startswith_iff)
      then show ?thesis by simp
    next
      case (Cons x xs')
      with e have "cs = xs' @ p @ ys" by simp
      then show ?thesis using Cons.IH by auto
    qed
  qed
qed

lemma lstrip_suffix: "\<exists>a. s = a @ lstrip s"
  by (metis lstrip_def takeWhile_dropWhile_id)

lemma rstrip_prefix: "\<exists>b. s = rstrip s @ b"
proof -
  have "s = rev (takeWhile isspace (rev s) @ dropWhile isspace (rev s))"
    by (simp only: takeWhile_dropWhile_id rev_rev_ident)
  then have "s = rstrip s @ rev (takeWhile isspace (rev s))"
    by (simp only: rev_append rstrip_def)
  then show ?thesis by blast
qed

lemma strip_infix: "\<exists>a b. s = a @ strip s @ b"
proof -
  obtain a where a: "s = a @ lstrip s" using lstrip_suffix by blast
  obtain b where b: "lstrip s = rstrip (lstrip s) @ b" using rstrip_prefix by blast
  from a b have "s = a @ strip s @ b" by (simp add: strip_def)
  then show ?thesis by blast
qed

lemma contains_strip: "contains (strip s) p \<Longrightarrow> contains s p"
proof -
  assume "contains (strip s) p"
  then obtain xs ys where x: "strip s = xs @ p @ ys" by (auto simp: contains_iff)
  obtain a b where "s = a @ strip s @ b" using strip_infix by blast
  with x have "s = (a @ xs) @ p @ (ys @ b)" by simp
  then show ?thesis unfolding contains_iff by blast
qed

lemma lstrip_idem: "lstrip (lstrip s) = lstrip s"
  unfolding lstrip_def by (metis dropWhile_idem)

lemma rstrip_idem [simp]: "rstrip (rstrip s) = rstrip s"
  by (simp add: rstrip_def)

lemma lstrip_rstrip_lstrip: "lstrip (rstrip (lstrip s)) = rstrip (lstrip s)"
proof (cases "lstrip s = []")
  case True
  then show ?thesis by (simp add: rstrip_def lstrip_def [of "[]"])
next
  case False
  then have h: "\<not> isspace (hd (lstrip s))"
    unfolding lstrip_def by (metis hd_dropWhile)
  obtain b where b: "lstrip s = rstrip (lstrip s) @ b" using rstrip_prefix by blast
  show ?thesis
  proof (cases "rstrip (lstrip s) = []")
    case True
    then show ?thesis by (simp add: lstrip_def)
  next
    case False
    with b have "hd (rstrip (lstrip s)) = hd (lstrip s)" by (metis hd_append2)
    with h False show ?thesis unfolding lstrip_def[of "rstrip (lstrip s)"]
      by (cases "rstrip (lstrip s)") auto
  qed
qed

lemma strip_idem [simp]: "strip (strip s) = strip s"
  by (simp add: strip_def lstrip_rstrip_lstrip)

section \<open>Item headers\<close>

lemma py_getitem_first: "lines \<noteq> [] \<Longrightarrow> py_getitem lines 0 = Inr (hd lines)"
  by (simp add: py_getitem_def hd_conv_nth)

lemma py_split_empty: "py_split [] sep = [[]]"
  by (simp add: py_split_def)

lemma strip_empty [simp]: "strip [] = []"
  by (simp add: strip_def rstrip_def lstrip_def)

lemma or_item_without_colon:
  assumes "lines \<noteq> []" and "\<not> contains (strip (hd lines)) '' :''"
  shows "\<exists>d. or_definition_item_parse header_split trim_indent lines =
           Inr \<lparr>item_term = strip (hd lines), item_classifiers = [], item_definition = d\<rparr>"
  using assms
  by (simp add: or_definition_item_parse_def py_getitem_first py_split_empty Let_def)

lemma parse_field_without_colon:
  assumes "lines \<noteq> []" and "\<not> contains (strip (hd lines)) '' :''"
  shows "\<exists>d. parse_field lines = Inr (strip (hd lines), [], d)"
  using assms
  by (simp add: parse_field_def py_getitem_first Let_def)

text \<open>
  Claim C6. When the header line of a block has no substring \<^verbatim>\<open>' :'\<close>, the item parser
  returns the whole stripped header as the term and no classifier, and \<^verbatim>\<open>parse_field\<close>
  returns the whole stripped header as the name and an empty type. The word \<^verbatim>\<open>or\<close> in
  such a header is part of the term.
\<close>

theorem header_without_colon_is_term:
  assumes "lines \<noteq> []" and "\<not> contains (hd lines) '' :''"
  shows "(\<exists>d. or_definition_item_parse header_split trim_indent lines =
            Inr \<lparr>item_term = strip (hd lines), item_classifiers = [], item_definition = d\<rparr>)
         \<and> (\<exists>d. parse_field lines = Inr (strip (hd lines), [], d))"
proof -
  from assms(2) have "\<not> contains (strip (hd lines)) '' :''"
    using contains_strip by blast
  with assms(1) show ?thesis
    using or_item_without_colon parse_field_without_colon by blast
qed

theorem header_without_colon_is_term_witness:
  "or_definition_item_parse re_split_colon id [''Returns or''] =
     Inr \<lparr>item_term = ''Returns or'', item_classifiers = [], item_definition = [[]]\<rparr>
   \<and> parse_field [''Returns or''] = Inr (''Returns or'', [], [[]])"
  using header_without_colon_is_term [of "[''Returns or'']" re_split_colon id]
  by (simp add: or_definition_item_parse_def parse_field_def py_getitem_def py_split_def
      startswith_def strip_def rstrip_def lstrip_def isspace_def Let_def)

lemma adjacent_in_zip: "(a, b) \<in> set (zip (xs @ a # b # ys) (tl (xs @ a # b # ys)))"
proof (induction xs)
  case Nil
  then show ?case by simp
next
  case (Cons x xs)
  then show ?case by (cases "xs @ a # b # ys") auto
qed

lemma dropWhile_keeps: "c \<in> set s \<Longrightarrow> \<not> P c \<Longrightarrow> c \<in> set (dropWhile P s)"
  by (induction s) auto

lemma strip_keeps: "c \<in> set s \<Longrightarrow> \<not> isspace c \<Longrightarrow> c \<in> set (strip s)"
proof -
  assume c: "c \<in> set s" and n: "\<not> isspace c"
  then have "c \<in> set (lstrip s)" by (simp add: lstrip_def dropWhile_keeps)
  then have "c \<in> set (rev (lstrip s))" by simp
  then have "c \<in> set (dropWhile isspace (rev (lstrip s)))" using n by (rule dropWhile_keeps)
  then show ?thesis by (simp add: strip_def rstrip_def)
qed

lemma or_item_classifiers_need_colon:
  assumes "or_definition_item_parse header_split trim_indent lines = Inr it"
    and "item_classifiers it \<noteq> []"
  shows "lines \<noteq> [] \<and> contains (strip (hd lines)) '' :''"
proof -
  have ne: "lines \<noteq> []"
    using assms(1) by (auto simp: or_definition_item_parse_def py_getitem_def)
  show ?thesis
  proof (rule ccontr)
    assume "\<not> (lines \<noteq> [] \<and> contains (strip (hd lines)) '' :'')"
    with ne have "\<not> contains (strip (hd lines)) '' :''" by simp
    with ne obtain d where
      "or_definition_item_parse header_split trim_indent lines =
         Inr \<lparr>item_term = strip (hd lines), item_classifiers = [], item_definition = d\<rparr>"
      using or_item_without_colon by blast
    with assms show False by auto
  qed
qed

text \<open>
  Claim C10, amended. A colon that does not follow a whitespace character fails the test
  for \<^verbatim>\<open>' :'\<close>: when the header line has a colon and no colon of it follows a whitespace
  character, the whole stripped header, colon included, is the term, and there is no
  classifier; \<^verbatim>\<open>parse_field\<close> returns the whole stripped header as the name in the same
  way. Whenever the item parser returns a classifier, the stripped header has a colon
  after a space.
\<close>

theorem colon_without_space_is_term:
  "(lines \<noteq> [] \<and> CHR '':'' \<in> set (hd lines)
      \<and> list_all (\<lambda>(a, b). b = CHR '':'' \<longrightarrow> \<not> isspace a) (zip (hd lines) (tl (hd lines)))
   \<longrightarrow> \<not> contains (strip (hd lines)) '' :''
       \<and> CHR '':'' \<in> set (strip (hd lines))
       \<and> (\<exists>d. or_definition_item_parse header_split trim_indent lines =
             Inr \<lparr>item_term = strip (hd lines), item_classifiers = [], item_definition = d\<rparr>)
       \<and> (\<exists>d. parse_field lines = Inr (strip (hd lines), [], d)))
   \<and> (or_definition_item_parse header_split trim_indent lines = Inr it
       \<and> item_classifiers it \<noteq> [] \<longrightarrow> contains (strip (hd lines)) '' :'')"
proof (rule conjI)
  show "lines \<noteq> [] \<and> CHR '':'' \<in> set (hd lines)
     \<and> list_all (\<lambda>(a, b). b = CHR '':'' \<longrightarrow> \<not> isspace a) (zip (hd lines) (tl (hd lines)))
   \<longrightarrow> \<not> contains (strip (hd lines)) '' :''
       \<and> CHR '':'' \<in> set (strip (hd lines))
       \<and> (\<exists>d. or_definition_item_parse header_split trim_indent lines =
             Inr \<lparr>item_term = strip (hd lines), item_classifiers = [], item_definition = d\<rparr>)
       \<and> (\<exists>d. parse_field lines = Inr (strip (hd lines), [], d))"
  proof (intro impI, elim conjE)
    assume ne: "lines \<noteq> []" and col: "CHR '':'' \<in> set (hd lines)"
      and un: "list_all (\<lambda>(a, b). b = CHR '':'' \<longrightarrow> \<not> isspace a) (zip (hd lines) (tl (hd lines)))"
    have no: "\<not> contains (hd lines) '' :''"
    proof
      assume "contains (hd lines) '' :''"
      then obtain xs ys where "hd lines = xs @ '' :'' @ ys" by (auto simp: contains_iff)
      then have "hd lines = xs @ CHR '' '' # CHR '':'' # ys" by simp
      then have "(CHR '' '', CHR '':'') \<in> set (zip (hd lines) (tl (hd lines)))"
        using adjacent_in_zip [of "CHR '' ''" "CHR '':''" xs ys] by simp
      with un have "\<not> isspace (CHR '' '')" by (auto simp: list_all_iff)
      then show False by (simp add: isspace_def)
    qed
    then have no': "\<not> contains (strip (hd lines)) '' :''" using contains_strip by blast
    have "\<not> isspace (CHR '':'')" by (simp add: isspace_def)
    with col have "CHR '':'' \<in> set (strip (hd lines))" by (rule strip_keeps)
    with no' ne
    show "\<not> contains (strip (hd lines)) '' :''
       \<and> CHR '':'' \<in> set (strip (hd lines))
       \<and> (\<exists>d. or_definition_item_parse header_split trim_indent lines =
             Inr \<lparr>item_term = strip (hd lines), item_classifiers = [], item_definition = d\<rparr>)
       \<and> (\<exists>d. parse_field lines = Inr (strip (hd lines), [], d))"
      using or_item_without_colon parse_field_without_colon by blast
  qed
  show "or_definition_item_parse header_split trim_indent lines = Inr it
       \<and> item_classifiers it \<noteq> [] \<longrightarrow> contains (strip (hd lines)) '' :''"
    using or_item_classifiers_need_colon by blast
qed

theorem colon_without_space_is_term_witness:
  "or_definition_item_parse re_split_colon id [''x: int''] =
     Inr \<lparr>item_term = ''x: int'', item_classifiers = [], item_definition = [[]]\<rparr>
   \<and> parse_field [''x: int''] = Inr (''x: int'', [], [[]])"
  using colon_without_space_is_term [of "[''x: int'']" re_split_colon id]
  by (simp add: or_definition_item_parse_def parse_field_def py_getitem_def py_split_def
      startswith_def strip_def rstrip_def lstrip_def isspace_def Let_def)

text \<open>
  Claim C10 as stated fails on the code. The header \<^verbatim>\<open>a:b : c\<close> has a colon that does not
  follow a whitespace character, the first one, and a second colon after a space: the test
  for \<^verbatim>\<open>' :'\<close> succeeds, the term is \<^verbatim>\<open>a:b\<close> and \<^verbatim>\<open>c\<close> is a classifier.
\<close>

theorem colon_after_plain_colon_counterexample:
  "''a:b : c'' ! 1 = CHR '':'' \<and> \<not> isspace (''a:b : c'' ! 0)
   \<and> contains (strip ''a:b : c'') '' :''
   \<and> or_definition_item_parse re_split_colon id [''a:b : c''] =
       Inr \<lparr>item_term = ''a:b'', item_classifiers = [''c''], item_definition = [[]]\<rparr>
   \<and> parse_field [''a:b : c''] = Inr (''a:b'', ''c'', [[]])"
  by (simp add: or_definition_item_parse_def parse_field_def py_getitem_def py_split_def
      re_split_colon_def startswith_def strip_def rstrip_def lstrip_def isspace_def Let_def)

section \<open>Classifiers\<close>

lemma split_or_none:
  "\<not> contains s ''or'' \<Longrightarrow> split_sep ''or'' acc s = [rev acc @ s]"
  by (induction s arbitrary: acc) auto

lemma split_or_step:
  "\<not> contains u ''or'' \<Longrightarrow>
     split_sep ''or'' acc (u @ '' or'' @ rest) = (rev acc @ u @ '' '') # split_sep ''or'' [] rest"
proof (induction u arbitrary: acc)
  case Nil
  then show ?case by (simp add: startswith_def)
next
  case (Cons c u)
  then have ns: "\<not> startswith (c # u) ''or''" and nc: "\<not> contains u ''or''" by auto
  have "\<not> startswith (c # u @ '' or'' @ rest) ''or''"
    using ns by (cases u) (auto simp: startswith_def)
  then show ?case using Cons.IH [OF nc] by simp
qed

lemma rstrip_snoc_space: "rstrip (s @ '' '') = rstrip s"
  by (simp add: rstrip_def isspace_def)

lemma lstrip_cons_space: "lstrip (CHR '' '' # s) = lstrip s"
  by (simp add: lstrip_def isspace_def)

lemma lstrip_snoc_space: "lstrip (s @ '' '') = (if lstrip s = [] then [] else lstrip s @ '' '')"
  by (induction s) (auto simp: lstrip_def isspace_def)

lemma strip_snoc_space: "strip (s @ '' '') = strip s"
  by (simp add: strip_def lstrip_snoc_space rstrip_snoc_space)

lemma strip_cons_space: "strip (CHR '' '' # s) = strip s"
  by (simp add: strip_def lstrip_cons_space)

lemma split_three_classifiers:
  assumes "\<not> contains c1 ''or''" and "\<not> contains c2 ''or''" and "\<not> contains c3 ''or''"
  shows "map strip (py_split (c1 @ '' or '' @ c2 @ '' or '' @ c3) ''or'')
           = [strip c1, strip c2, strip c3]"
proof -
  have "split_sep ''or'' [] (c1 @ '' or'' @ ('' '' @ c2) @ '' or'' @ ('' '' @ c3))
          = (c1 @ '' '') # split_sep ''or'' [] (('' '' @ c2) @ '' or'' @ ('' '' @ c3))"
    using split_or_step [OF assms(1), of "[]"] by simp
  moreover have n2: "\<not> contains ('' '' @ c2) ''or''"
    using assms(2) by (simp add: startswith_def)
  have "split_sep ''or'' [] (('' '' @ c2) @ '' or'' @ ('' '' @ c3))
          = (('' '' @ c2) @ '' '') # split_sep ''or'' [] ('' '' @ c3)"
    using split_or_step [OF n2, of "[]"] by simp
  moreover have n3: "\<not> contains ('' '' @ c3) ''or''"
    using assms(3) by (simp add: startswith_def)
  have "split_sep ''or'' [] ('' '' @ c3) = ['' '' @ c3]"
    using split_or_none [OF n3, of "[]"] by simp
  ultimately have "py_split (c1 @ '' or '' @ c2 @ '' or '' @ c3) ''or''
      = [c1 @ '' '', ('' '' @ c2) @ '' '', '' '' @ c3]"
    by (simp add: py_split_def)
  then show ?thesis
    by (simp add: strip_snoc_space strip_cons_space)
qed

text \<open>
  Claim C4 fails on the code: \<^verbatim>\<open>classifiers.split('or')\<close> cuts the classifier phrase at
  every occurrence of the two letters, also inside a word. The header
  \<^verbatim>\<open>x : torch.Tensor\<close> has no word \<^verbatim>\<open>or\<close>, and the parser returns three classifiers
  for it. The header is split at \<^verbatim>\<open>\s:\s?\<close>, the pattern \<^verbatim>\<open>parse_field\<close> uses.
\<close>

theorem or_splits_inside_words:
  "or_definition_item_parse re_split_colon trim_indent [''x : torch.Tensor''] =
     Inr \<lparr>item_term = ''x'', item_classifiers = [''t'', ''ch.Tens'', []],
          item_definition = [[]]\<rparr>"
  by (simp add: or_definition_item_parse_def py_getitem_def py_split_def re_split_colon_def
      startswith_def strip_def rstrip_def lstrip_def isspace_def Let_def)

text \<open>
  Claim C5 as stated fails on the code: a header with three classifier segments is parsed
  into an item, no error is raised.
\<close>

theorem three_classifiers_counterexample:
  "or_definition_item_parse re_split_colon id [''x : int or float or str''] =
     Inr \<lparr>item_term = ''x'', item_classifiers = [''int'', ''float'', ''str''],
          item_definition = [[]]\<rparr>"
  by (simp add: or_definition_item_parse_def py_getitem_def py_split_def re_split_colon_def
      startswith_def strip_def rstrip_def lstrip_def isspace_def Let_def)

text \<open>
  Claim C5, amended. For a header \<^verbatim>\<open>term : c1 or c2 or c3\<close> whose three segments do not
  have the letters \<^verbatim>\<open>or\<close> inside, the item parser does not fail: it returns an item with
  the stripped term and the three stripped segments as classifiers. The header's split
  into term and classifier phrase is the one \<open>header_split\<close> returns.
\<close>

theorem three_classifiers_accepted:
  assumes "contains (strip line) '' :''"
    and "header_split (strip line) = [t, c1 @ '' or '' @ c2 @ '' or '' @ c3]"
    and "\<not> contains c1 ''or''" and "\<not> contains c2 ''or''" and "\<not> contains c3 ''or''"
  shows "\<exists>d. or_definition_item_parse header_split trim_indent (line # body) =
           Inr \<lparr>item_term = strip t, item_classifiers = [strip c1, strip c2, strip c3],
                item_definition = d\<rparr>"
  using assms(1,2) split_three_classifiers [OF assms(3-5)]
  by (simp add: or_definition_item_parse_def py_getitem_def Let_def)

theorem three_classifiers_accepted_witness:
  "\<exists>d. or_definition_item_parse re_split_colon id [''y : str or bytes or None''] =
         Inr \<lparr>item_term = ''y'', item_classifiers = [''str'', ''bytes'', ''None''],
              item_definition = d\<rparr>"
  using three_classifiers_accepted [of "''y : str or bytes or None''" re_split_colon
      "''y''" "''str''" "''bytes''" "''None''" id "[]"]
  by (simp add: re_split_colon_def startswith_def strip_def rstrip_def lstrip_def isspace_def)

section \<open>Recognising a section header\<close>

lemma peek_line_after:
  "0 \<le> index s \<Longrightarrow> 0 \<le> k \<Longrightarrow> peek k s = Inr (line_after s k, s)"
  by (simp add: peek_eq line_after_def py_getitem_def)

lemma isspace_not_word: "isspace c \<Longrightarrow> \<not> is_word_char c"
  by (auto simp: isspace_def is_word_char_def is_letter_def)

lemma sub_underline_pointwise:
  "sub_underline repl prev cs =
     map (\<lambda>i. if is_letter (cs ! i) \<or> cs ! i = CHR 0x5C
                  \<or> (isspace (cs ! i)
                      \<and> (case (if i = 0 then prev else Some (cs ! (i - 1))) of
                            None \<Rightarrow> False | Some q \<Rightarrow> is_word_char q))
               then repl else cs ! i) [0..<length cs]"
proof (induction cs arbitrary: prev)
  case Nil
  then show ?case by simp
next
  case (Cons c cs)
  have "sub_underline repl (Some c) cs =
     map (\<lambda>i. if is_letter (cs ! i) \<or> cs ! i = CHR 0x5C
                  \<or> (isspace (cs ! i)
                      \<and> (case (if i = 0 then Some c else Some (cs ! (i - 1))) of
                            None \<Rightarrow> False | Some q \<Rightarrow> is_word_char q))
               then repl else cs ! i) [0..<length cs]"
    by (rule Cons.IH)
  also have "\<dots> =
     map (\<lambda>i. if is_letter ((c # cs) ! Suc i) \<or> (c # cs) ! Suc i = CHR 0x5C
                  \<or> (isspace ((c # cs) ! Suc i)
                      \<and> (case (if Suc i = 0 then prev else Some ((c # cs) ! (Suc i - 1))) of
                            None \<Rightarrow> False | Some q \<Rightarrow> is_word_char q))
               then repl else (c # cs) ! Suc i) [0..<length cs]"
    by (rule map_cong) (auto simp: nth_Cons')
  finally show ?case
    by (auto simp: map_upt_Suc isspace_not_word simp del: upt_Suc)
qed

lemma expected_underline_spec: "expected_underline repl h = spec_underline repl h"
  unfolding expected_underline_def spec_underline_def sub_underline_pointwise
  by (rule map_cong) auto

lemma rstrip_trailing: "\<exists>b. s = rstrip s @ b \<and> (\<forall>c \<in> set b. isspace c)"
proof -
  have "s = rev (takeWhile isspace (rev s) @ dropWhile isspace (rev s))"
    by (simp only: takeWhile_dropWhile_id rev_rev_ident)
  then have "s = rstrip s @ rev (takeWhile isspace (rev s))"
    by (simp only: rev_append rstrip_def)
  moreover have "\<forall>c \<in> set (rev (takeWhile isspace (rev s))). isspace c"
    by (auto dest: set_takeWhileD)
  ultimately show ?thesis by blast
qed

lemma rstrip_append_spaces: "\<forall>c \<in> set b. isspace c \<Longrightarrow> rstrip (t @ b) = rstrip t"
proof -
  assume "\<forall>c \<in> set b. isspace c"
  then have "dropWhile isspace (rev b @ rev t) = dropWhile isspace (rev t)"
    by (intro dropWhile_append2) simp
  then show ?thesis by (simp add: rstrip_def)
qed

lemma rstrip_no_space: "\<forall>c \<in> set t. \<not> isspace c \<Longrightarrow> rstrip t = t"
proof -
  assume a: "\<forall>c \<in> set t. \<not> isspace c"
  have "dropWhile isspace (rev t) = rev t"
  proof (cases "rev t")
    case Nil
    then show ?thesis by simp
  next
    case (Cons x xs)
    then have "x \<in> set t" by (metis list.set_intros(1) set_rev)
    with a Cons show ?thesis by simp
  qed
  then show ?thesis by (simp add: rstrip_def)
qed

lemma underline_match_single_token:
  "underline_match l = (if single_token l then Some l else None)"
proof -
  define r1 where "r1 = dropWhile isspace l"
  define token where "token = takeWhile (\<lambda>c. \<not> isspace c) r1"
  define r2 where "r2 = dropWhile (\<lambda>c. \<not> isspace c) r1"
  have parts: "r1 = token @ r2" by (simp add: token_def r2_def)
  have tok: "\<forall>c \<in> set token. \<not> isspace c"
    unfolding token_def by (auto dest: set_takeWhileD)
  have um: "underline_match l = (if token \<noteq> [] \<and> dropWhile isspace r2 = [] then Some l else None)"
    by (simp add: underline_match_def r1_def token_def r2_def Let_def)
  have st: "strip l = rstrip r1" by (simp add: strip_def lstrip_def r1_def)
  have "(token \<noteq> [] \<and> dropWhile isspace r2 = []) \<longleftrightarrow> single_token l"
  proof
    assume h: "token \<noteq> [] \<and> dropWhile isspace r2 = []"
    then have "\<forall>c \<in> set r2. isspace c" by (simp add: dropWhile_eq_Nil_conv)
    then have "rstrip r1 = rstrip token" using parts rstrip_append_spaces by simp
    also have "\<dots> = token" using tok by (rule rstrip_no_space)
    finally show "single_token l" using h tok st by (simp add: single_token_def list_all_iff)
  next
    assume h: "single_token l"
    then have ne: "rstrip r1 \<noteq> []" and ns: "\<forall>c \<in> set (rstrip r1). \<not> isspace c"
      using st by (simp_all add: single_token_def list_all_iff)
    obtain b where b: "r1 = rstrip r1 @ b" and bs: "\<forall>c \<in> set b. isspace c"
      using rstrip_trailing by blast
    have "token = takeWhile (\<lambda>c. \<not> isspace c) (rstrip r1 @ b)"
      using b token_def by simp
    also have "\<dots> = rstrip r1"
    proof (cases b)
      case Nil
      then show ?thesis using ns by simp
    next
      case (Cons x xs)
      then have "isspace x" using bs by simp
      then show ?thesis using ns Cons by (simp add: takeWhile_tail)
    qed
    finally have t: "token = rstrip r1" .
    with parts b have "r2 = b" by (metis same_append_eq)
    with t ne bs show "token \<noteq> [] \<and> dropWhile isspace r2 = []"
      by (simp add: dropWhile_eq_Nil_conv)
  qed
  with um show ?thesis by simp
qed

lemma is_section_eq:
  assumes "0 \<le> index s"
  shows "is_section s =
     Inr (if \<not> eol s \<and> single_token (line_after s 1)
              \<and> (rstrip (line_after s 1) = spec_underline (CHR ''-'') (rstrip (line_after s 0))
                  \<or> rstrip (line_after s 1) = spec_underline (CHR ''='') (rstrip (line_after s 0)))
          then Some (strip (line_after s 0)) else None, s)"
  using assms
  by (simp add: is_section_def peek_line_after underline_match_single_token
      expected_underline_spec Let_def)

text \<open>
  Claim C3 as stated fails on the code. The header \<^verbatim>\<open>a  b\<close> has the expected underline
  \<^verbatim>\<open>-- -\<close>; the next line, stripped, is equal to it, and \<^verbatim>\<open>is_section\<close> returns
  \<^verbatim>\<open>False\<close>, because the next line is not a single token.
\<close>

theorem underline_of_two_tokens_counterexample:
  "strip ''-- -'' = expected_underline (CHR ''-'') (rstrip ''a  b'')
   \<and> rstrip ''-- -'' = expected_underline (CHR ''-'') (rstrip ''a  b'')
   \<and> is_section \<lparr>docstring = [''a  b'', ''-- -''], index = 0, headers = Map.empty\<rparr>
       = Inr (None, \<lparr>docstring = [''a  b'', ''-- -''], index = 0, headers = Map.empty\<rparr>)"
  by (simp add: is_section_def eol_def peek_def py_getitem_def underline_match_def
      expected_underline_def strip_def rstrip_def lstrip_def isspace_def is_letter_def
      is_word_char_def Let_def)

text \<open>
  Claim C3, amended. \<^verbatim>\<open>is_section\<close> leaves the lines and the cursor as they are. It
  returns the stripped header line exactly when the buffer is not at end of input, the
  next line is a single token, and the next line without its trailing whitespace is the
  expected underline of the header line without its trailing whitespace, built with
  \<^verbatim>\<open>-\<close> or built with \<^verbatim>\<open>=\<close>. In every other case it returns \<^verbatim>\<open>False\<close>.
\<close>

theorem is_section_header_rule:
  assumes "0 \<le> index s"
  shows "is_section s =
     Inr (if \<not> eol s \<and> single_token (line_after s 1)
              \<and> (rstrip (line_after s 1) = spec_underline (CHR ''-'') (rstrip (line_after s 0))
                  \<or> rstrip (line_after s 1) = spec_underline (CHR ''='') (rstrip (line_after s 0)))
          then Some (strip (line_after s 0)) else None, s)"
  using assms by (rule is_section_eq)

theorem is_section_header_rule_witness:
  "is_section \<lparr>docstring = [''Two words'', ''=========''], index = 0, headers = Map.empty\<rparr>
     = Inr (Some ''Two words'',
            \<lparr>docstring = [''Two words'', ''=========''], index = 0, headers = Map.empty\<rparr>)
   \<and> is_section \<lparr>docstring = [''Foo'', ''--''], index = 0, headers = Map.empty\<rparr>
     = Inr (None, \<lparr>docstring = [''Foo'', ''--''], index = 0, headers = Map.empty\<rparr>)"
  using is_section_header_rule
      [of "\<lparr>docstring = [''Two words'', ''=========''], index = 0, headers = Map.empty\<rparr>"]
    is_section_header_rule
      [of "\<lparr>docstring = [''Foo'', ''--''], index = 0, headers = Map.empty\<rparr>"]
  by (simp add: eol_def line_after_def single_token_def expected_underline_spec [symmetric]
      expected_underline_def strip_def rstrip_def lstrip_def isspace_def is_letter_def
      is_word_char_def)

section \<open>Extracting a field block\<close>

lemma continuation_le: "continuation indent xs \<le> length xs"
  by (induction xs) auto

lemma is_empty_iff: "is_empty l \<longleftrightarrow> list_all isspace l"
proof
  assume "is_empty l"
  then have "dropWhile isspace (rev (lstrip l)) = []"
    by (simp add: is_empty_def strip_def rstrip_def)
  then have all: "\<forall>c \<in> set (lstrip l). isspace c"
    by (simp add: dropWhile_eq_Nil_conv)
  have "lstrip l = []"
  proof (rule ccontr)
    assume ne: "lstrip l \<noteq> []"
    then have "\<not> isspace (hd (lstrip l))"
      unfolding lstrip_def by (metis hd_dropWhile)
    moreover have "hd (lstrip l) \<in> set (lstrip l)" using ne by simp
    ultimately show False using all by blast
  qed
  then show "list_all isspace l"
    by (simp add: lstrip_def dropWhile_eq_Nil_conv list_all_iff)
next
  assume "list_all isspace l"
  then have "lstrip l = []"
    by (simp add: lstrip_def dropWhile_eq_Nil_conv list_all_iff)
  then show "is_empty l" by (simp add: is_empty_def strip_def rstrip_def)
qed

lemma get_indent_eq: "get_indent line = takeWhile isspace line"
  by (simp add: get_indent_def indent_regex_match_def Let_def)

lemma py_del_slice_inside:
  "0 \<le> i \<Longrightarrow> i \<le> j \<Longrightarrow> j \<le> int (length xs) \<Longrightarrow>
     py_del_slice xs i j = take (nat i) xs @ drop (nat j) xs"
  by (auto simp: py_del_slice_def py_slice_bound_def Let_def min_def max_def)

lemma block_loop_suffix:
  "0 \<le> index s \<Longrightarrow> drop (nat (index s)) (docstring s) = xs \<Longrightarrow>
     block_loop indent field s =
       Inr (field @ map rstrip (take (continuation indent xs) xs),
            s\<lparr>index := index s + int (continuation indent xs)\<rparr>)"
proof (induction xs arbitrary: s field)
  case Nil
  then have "eol s" by (simp add: eol_def)
  then show ?case by (subst block_loop.simps) simp
next
  case (Cons l xs)
  from Cons.prems have lt: "nat (index s) < length (docstring s)"
    by (metis drop_eq_Nil2 list.distinct(1) not_le_imp_less)
  then have lt': "index s < int (length (docstring s))" using Cons.prems(1) by linarith
  then have ne: "\<not> eol s" by (simp add: eol_def)
  from Cons.prems lt have l: "docstring s ! nat (index s) = l"
    and xs: "drop (Suc (nat (index s))) (docstring s) = xs"
    by (simp_all add: Cons_nth_drop_Suc [symmetric])
  have p0: "peek 0 s = Inr (l, s)"
    using Cons.prems(1) lt' l by (simp add: peek_eq py_getitem_def)
  have p1: "peek 1 s = Inr (case xs of [] \<Rightarrow> [] | next_line # _ \<Rightarrow> next_line, s)"
  proof (cases xs)
    case Nil
    with xs have "length (docstring s) \<le> Suc (nat (index s))" by simp
    then have "int (length (docstring s)) \<le> index s + 1"
      using Cons.prems(1) by linarith
    with Nil show ?thesis by (simp add: peek_eq py_getitem_beyond)
  next
    case (Cons n ns)
    with xs have sl: "Suc (nat (index s)) < length (docstring s)"
      by (metis drop_eq_Nil2 list.distinct(1) not_le_imp_less)
    from sl xs Cons have "docstring s ! Suc (nat (index s)) = n"
      by (simp add: Cons_nth_drop_Suc [symmetric])
    moreover have "nat (index s + 1) = Suc (nat (index s))"
      using Cons.prems(1) by (simp add: nat_add_distrib)
    moreover have "0 \<le> index s + 1" and "index s + 1 < int (length (docstring s))"
      using Cons.prems(1) sl by linarith+
    ultimately show ?thesis
      using Cons by (simp add: peek_eq py_getitem_in_range)
  qed
  have rd: "read s = Inr (l, s\<lparr>index := index s + 1\<rparr>)"
    using Cons.prems(1) lt' l by (simp add: read_def py_getitem_def)
  have ih: "block_loop indent (field @ [rstrip l]) (s\<lparr>index := index s + 1\<rparr>) =
       Inr ((field @ [rstrip l]) @ map rstrip (take (continuation indent xs) xs),
            s\<lparr>index := index s + 1\<rparr>\<lparr>index := index (s\<lparr>index := index s + 1\<rparr>)
                 + int (continuation indent xs)\<rparr>)"
    using Cons.prems(1) xs by (intro Cons.IH) (simp_all add: nat_add_distrib)
  show ?case
    by (subst block_loop.simps) (simp add: ne p0 p1 rd ih is_empty_iff startswith_def)
qed

lemma get_next_block_eq:
  assumes "0 \<le> index s" and "\<not> eol s"
  shows "get_next_block s =
     (let i = nat (index s);
          field_header = docstring s ! i;
          n = continuation (get_indent field_header @ '' '') (drop (Suc i) (docstring s))
      in Inr (field_header # map rstrip (take n (drop (Suc i) (docstring s))),
              s\<lparr>docstring := take i (docstring s) @ drop (Suc i + n) (docstring s),
                 index := index s\<rparr>))"
proof -
  define i where "i = nat (index s)"
  define rest where "rest = drop (Suc i) (docstring s)"
  define n where "n = continuation (get_indent (docstring s ! i) @ '' '') rest"
  from assms have lt: "i < length (docstring s)" by (simp add: eol_def i_def)
  have rd: "read s = Inr (docstring s ! i, s\<lparr>index := index s + 1\<rparr>)"
    using assms lt by (simp add: read_def py_getitem_def i_def)
  have "drop (nat (index (s\<lparr>index := index s + 1\<rparr>))) (docstring (s\<lparr>index := index s + 1\<rparr>)) = rest"
    using assms(1) by (simp add: rest_def i_def nat_add_distrib)
  then have bl: "block_loop (get_indent (docstring s ! i) @ '' '') [docstring s ! i]
            (s\<lparr>index := index s + 1\<rparr>) =
       Inr ([docstring s ! i] @ map rstrip (take n rest),
            s\<lparr>index := index s + 1\<rparr>\<lparr>index := index (s\<lparr>index := index s + 1\<rparr>) + int n\<rparr>)"
    unfolding n_def using assms(1) by (intro block_loop_suffix) simp_all
  have nle: "n \<le> length rest" unfolding n_def by (rule continuation_le)
  then have len: "length (map rstrip (take n rest)) = n" by simp
  have "index s + (1 + int n) \<le> int (length (docstring s))"
    using nle lt assms(1) by (simp add: rest_def i_def)
  then have del: "py_del_slice (docstring s) (index s) (index s + (1 + int n))
      = take i (docstring s) @ drop (Suc i + n) (docstring s)"
    using assms(1) by (simp add: py_del_slice_inside i_def nat_add_distrib)
  show ?thesis
    using rd bl del len
    by (simp add: get_next_block_def remove_lines_def Let_def i_def [symmetric]
        rest_def [symmetric] n_def [symmetric])
qed

text \<open>
  Claim C2. For a buffer that is not at end of input, \<^verbatim>\<open>get_next_block\<close> returns the line
  at the cursor as it is, followed by the lines that the continuation rule takes from the
  lines after it, each without its trailing whitespace. Afterwards the buffer is the old
  buffer without that span of lines, and the cursor is where it was. The body indent of the
  rule is the run of whitespace at the start of the header line, and one space.
\<close>

theorem get_next_block_extracts_block:
  assumes "0 \<le> index s" and "\<not> eol s"
  shows "get_next_block s =
     (let i = nat (index s);
          field_header = docstring s ! i;
          n = continuation (takeWhile isspace field_header @ '' '') (drop (Suc i) (docstring s))
      in Inr (field_header # map rstrip (take n (drop (Suc i) (docstring s))),
              s\<lparr>docstring := take i (docstring s) @ drop (Suc i + n) (docstring s),
                 index := index s\<rparr>))"
  using get_next_block_eq [OF assms] by (simp add: get_indent_eq)

theorem get_next_block_extracts_block_witness:
  "get_next_block
     \<lparr>docstring = [''Args'', ''  x : int  '', ''      The x.  '', [], ''      More.'',
                   ''  y : int'', ''z''],
      index = 1, headers = Map.empty\<rparr>
   = Inr ([''  x : int  '', ''      The x.'', [], ''      More.''],
          \<lparr>docstring = [''Args'', ''  y : int'', ''z''], index = 1, headers = Map.empty\<rparr>)"
  using get_next_block_extracts_block
    [of "\<lparr>docstring = [''Args'', ''  x : int  '', ''      The x.  '', [], ''      More.'',
                        ''  y : int'', ''z''],
          index = 1, headers = Map.empty\<rparr>"]
  by (simp add: eol_def Let_def rstrip_def isspace_def)

section \<open>One turn of the parse loop\<close>

lemma header_at_iff:
  "header_at lines i \<longleftrightarrow>
     i < length lines
     \<and> single_token (if Suc i < length lines then lines ! Suc i else [])
     \<and> (rstrip (if Suc i < length lines then lines ! Suc i else [])
           = spec_underline (CHR ''-'') (rstrip (lines ! i))
         \<or> rstrip (if Suc i < length lines then lines ! Suc i else [])
           = spec_underline (CHR ''='') (rstrip (lines ! i)))
     \<and> strip (lines ! i) \<noteq> []"
proof -
  have "int i + 1 < int (length lines) \<longleftrightarrow> Suc i < length lines" by linarith
  moreover have "nat (int i + 1) = Suc i" by simp
  ultimately show ?thesis
    by (simp add: header_at_def is_section_eq eol_def line_after_def truthy_def not_le)
qed

lemma is_section_header_at:
  assumes "0 \<le> index s"
  shows "is_section s =
     Inr (if header_at (docstring s) (nat (index s))
          then Some (strip (docstring s ! nat (index s))) else None, s)
     \<or> (\<not> header_at (docstring s) (nat (index s)) \<and> is_section s = Inr (Some [], s))"
proof -
  have a: "index s + 1 < int (length (docstring s)) \<longleftrightarrow> Suc (nat (index s)) < length (docstring s)"
    using assms by linarith
  have b: "nat (index s + 1) = Suc (nat (index s))" using assms by (simp add: nat_add_distrib)
  have c: "index s < int (length (docstring s)) \<longleftrightarrow> nat (index s) < length (docstring s)"
    using assms by linarith
  show ?thesis
    using assms by (auto simp: is_section_eq header_at_iff eol_def line_after_def a b c not_le)
qed

lemma is_section_truthy:
  assumes "0 \<le> index s"
  shows "\<exists>r. is_section s = Inr (r, s)
           \<and> (truthy r \<longleftrightarrow> header_at (docstring s) (nat (index s)))
           \<and> (truthy r \<longrightarrow> r = Some (strip (docstring s ! nat (index s))))"
  using is_section_header_at [OF assms]
  by (auto simp: truthy_def header_at_iff)

lemma py_del_slice_nonneg:
  "0 \<le> a \<Longrightarrow> a \<le> b \<Longrightarrow> py_del_slice xs a b = take (nat a) xs @ drop (nat b) xs"
  by (auto simp: py_del_slice_def py_slice_bound_def Let_def min_def max_def)

lemma py_insert_nonneg:
  "0 \<le> a \<Longrightarrow> py_insert xs a x = take (nat a) xs @ x # drop (nat a) xs"
  by (auto simp: py_insert_def py_slice_bound_def Let_def min_def)

lemma py_slice_from_nonneg: "0 \<le> a \<Longrightarrow> py_slice_from xs a = drop (nat a) xs"
  by (auto simp: py_slice_from_def py_slice_bound_def min_def)

lemma seek_eq:
  "0 \<le> index s \<Longrightarrow>
     seek_to_next_non_empty_line s =
       Inr ((), s\<lparr>index := seek_loop (drop (nat (index s)) (docstring s)) (index s)\<rparr>)"
  by (simp add: seek_to_next_non_empty_line_def py_slice_from_nonneg)

lemma parse_step_no_header:
  assumes "0 \<le> index s" and "\<not> header_at (docstring s) (nat (index s))"
  shows "parse_step s =
     Inr ((), s\<lparr>index := seek_loop (drop (Suc (nat (index s))) (docstring s)) (index s + 1)\<rparr>)"
proof -
  obtain r where "is_section s = Inr (r, s)" and "\<not> truthy r"
    using is_section_truthy [OF assms(1)] assms(2) by blast
  then show ?thesis
    using assms(1) by (simp add: parse_step_def seek_eq nat_add_distrib)
qed

lemma header_at_next: "header_at lines i \<Longrightarrow> Suc i < length lines"
  by (auto simp: header_at_iff single_token_def split: if_splits)

lemma replace_two_lines:
  assumes "0 \<le> a" and "Suc (nat a) < length d"
  shows "foldl (\<lambda>d line. py_insert d a line) (py_del_slice d a (a + 2)) (rev [x, y])
         = take (nat a) d @ [x, y] @ drop (nat a + 2) d"
proof -
  have del: "py_del_slice d a (a + 2) = take (nat a) d @ drop (nat a + 2) d"
    using assms(1) by (simp add: py_del_slice_nonneg nat_add_distrib)
  have len: "length (take (nat a) d) = nat a" using assms(2) by simp
  have "py_insert (take (nat a) d @ drop (nat a + 2) d) a y
      = take (nat a) d @ y # drop (nat a + 2) d"
    using len assms(1) by (simp add: py_insert_nonneg)
  moreover have "py_insert (take (nat a) d @ y # drop (nat a + 2) d) a x
      = take (nat a) d @ x # y # drop (nat a + 2) d"
    using len assms(1) by (simp add: py_insert_nonneg)
  ultimately show ?thesis using del by simp
qed

lemma refactor_header_eq:
  assumes "0 \<le> index s" and "Suc (nat (index s)) < length (docstring s)"
  shows "refactor_header header s =
     Inr ([get_indent (docstring s ! nat (index s)) @ ''.. rubric:: '' @ strip_quotes (repr header), []],
          s\<lparr>docstring := take (nat (index s)) (docstring s)
                @ [get_indent (docstring s ! nat (index s)) @ ''.. rubric:: '' @ strip_quotes (repr header), []]
                @ drop (nat (index s) + 2) (docstring s),
             index := index s + 2\<rparr>)"
proof -
  have lt: "index s < int (length (docstring s))" using assms by linarith
  have p: "peek 0 s = Inr (docstring s ! nat (index s), s)"
    using assms(1) lt by (simp add: peek_line_after line_after_def)
  show ?thesis
    by (simp add: refactor_header_def p remove_lines_def insert_lines_def Let_def
        replace_two_lines [OF assms] del: foldl.simps rev.simps)
qed

lemma parse_step_header:
  assumes "0 \<le> index s" and "header_at (docstring s) (nat (index s))"
  shows "parse_step s =
     (if headers s (strip (docstring s ! nat (index s))) \<in> {None, Some ''header''} then
        Inr ((), s\<lparr>docstring := take (nat (index s)) (docstring s)
                      @ [rubric_line (docstring s ! nat (index s)), []]
                      @ (if is_empty (line_after s 2)
                         then drop (nat (index s) + 3) (docstring s)
                         else drop (nat (index s) + 2) (docstring s)),
                    index := index s + 2\<rparr>)
      else Inl AttributeError)"
proof -
  define i where "i = nat (index s)"
  define ds where "ds = docstring s"
  have next_line: "Suc i < length ds"
    using assms(2) unfolding i_def ds_def by (rule header_at_next)
  have sec: "is_section s = Inr (Some (strip (ds ! i)), s)"
    using is_section_truthy [OF assms(1)] assms(2) by (auto simp: i_def ds_def)
  have tr: "truthy (Some (strip (ds ! i)))"
    using is_section_truthy [OF assms(1)] assms(2) sec by (auto simp: i_def ds_def)
  have p2: "peek 2 s = Inr (line_after s 2, s)"
    using assms(1) by (simp add: peek_line_after)
  define s3 where "s3 = (if is_empty (line_after s 2)
      then s\<lparr>docstring := take (i + 2) ds @ drop (i + 3) ds\<rparr> else s)"
  have rm: "(if is_empty (line_after s 2) then remove_lines (index s + 2) 1 s else Inr ((), s))
      = Inr ((), s3)"
    using assms(1)
    by (simp add: s3_def remove_lines_def py_del_slice_nonneg nat_add_distrib i_def ds_def
        add.commute)
  have idx3: "index s3 = index s" and hd3: "headers s3 = headers s"
    by (simp_all add: s3_def)
  have len3: "Suc (nat (index s3)) < length (docstring s3)"
    using next_line by (auto simp: s3_def i_def ds_def)
  have line3: "docstring s3 ! i = ds ! i"
    using next_line by (auto simp: s3_def i_def ds_def nth_append)
  have take3: "take i (docstring s3) = take i ds"
    using next_line by (auto simp: s3_def i_def ds_def)
  have drop3: "drop (i + 2) (docstring s3)
      = (if is_empty (line_after s 2) then drop (i + 3) ds else drop (i + 2) ds)"
    using next_line by (auto simp: s3_def i_def ds_def)
  have nn3: "0 \<le> index s3" using assms(1) by (simp add: idx3)
  have rh: "refactor_header (strip (ds ! i)) s3 =
      Inr ([rubric_line (ds ! i), []],
           s3\<lparr>docstring := take i ds @ [rubric_line (ds ! i), []]
                  @ (if is_empty (line_after s 2) then drop (i + 3) ds else drop (i + 2) ds),
               index := index s + 2\<rparr>)"
    using refactor_header_eq [OF nn3 len3, of "strip (ds ! i)"]
    unfolding idx3 i_def [symmetric] line3 take3 drop3 rubric_line_def .
  have s3_upd: "\<And>d j. s3\<lparr>docstring := d, index := j\<rparr> = s\<lparr>docstring := d, index := j\<rparr>"
    by (simp add: s3_def)
  show ?thesis
    using sec tr p2 rm rh
    by (auto simp: parse_step_def refactor_def hd3 s3_upd Let_def i_def [symmetric]
        ds_def [symmetric] split: option.splits)
qed

section \<open>What the parse loop keeps true\<close>

lemma seek_loop_eq: "seek_loop xs j = j + int (length (takeWhile is_empty xs))"
  by (induction xs arbitrary: j) auto

lemma header_at_blank: "is_empty (lines ! i) \<Longrightarrow> \<not> header_at lines i"
  by (simp add: header_at_iff is_empty_def)

lemma header_at_cong:
  assumes "Suc i < length a" and "Suc i < length b"
    and "a ! i = b ! i" and "a ! Suc i = b ! Suc i"
  shows "header_at a i = header_at b i"
  using assms by (simp add: header_at_iff)

lemma strip_keeps_inner:
  assumes "p1 \<in> set p" and "\<not> isspace p1" and "q1 \<in> set q" and "\<not> isspace q1"
  shows "c \<in> set (strip (p @ c # q))"
proof -
  have "lstrip (p @ c # q) = dropWhile isspace p @ c # q"
    unfolding lstrip_def using assms(1,2) by (rule dropWhile_append1)
  then have "strip (p @ c # q) = rev (dropWhile isspace (rev q @ c # rev (dropWhile isspace p)))"
    by (simp add: strip_def rstrip_def)
  also have "dropWhile isspace (rev q @ c # rev (dropWhile isspace p))
      = dropWhile isspace (rev q) @ c # rev (dropWhile isspace p)"
    using assms(3,4) by (intro dropWhile_append1 [of q1]) simp_all
  finally show ?thesis by simp
qed

lemma rubric_line_two_tokens: "\<not> single_token (rubric_line line)"
proof -
  have "rubric_line line
      = (get_indent line @ ''..'') @ CHR '' '' # (''rubric:: '' @ strip_quotes (repr (strip line)))"
    by (simp add: rubric_line_def)
  moreover have "CHR '' '' \<in> set (strip ((get_indent line @ ''..'') @ CHR '' ''
      # (''rubric:: '' @ strip_quotes (repr (strip line)))))"
    by (rule strip_keeps_inner [of "CHR ''.''" _ "CHR ''r''"]) (simp_all add: isspace_def)
  ultimately have "CHR '' '' \<in> set (strip (rubric_line line))" by simp
  moreover have "isspace (CHR '' '')" by (simp add: isspace_def)
  ultimately show ?thesis by (auto simp: single_token_def list_all_iff)
qed

lemma header_at_rubric_next:
  "Suc i < length lines \<Longrightarrow> lines ! Suc i = rubric_line l \<Longrightarrow> \<not> header_at lines i"
  by (simp add: header_at_iff rubric_line_two_tokens)

lemma header_at_blank_next:
  "Suc i < length lines \<Longrightarrow> lines ! Suc i = [] \<Longrightarrow> \<not> header_at lines i"
  by (simp add: header_at_iff single_token_def)

lemma no_header_step_keeps:
  assumes ok: "cursor_ok s" and sc: "scanned s" and ne: "\<not> eol s"
    and nh: "\<not> header_at (docstring s) (nat (index s))"
    and st: "s' = s\<lparr>index := seek_loop (drop (Suc (nat (index s))) (docstring s)) (index s + 1)\<rparr>"
  shows "cursor_ok s' \<and> scanned s'"
proof -
  define i where "i = nat (index s)"
  define k where "k = length (takeWhile is_empty (drop (Suc i) (docstring s)))"
  have ii: "index s = int i" using ok by (simp add: i_def cursor_ok_def)
  have lt: "i < length (docstring s)" using ne ii by (simp add: eol_def)
  have idx: "index s' = int (Suc i + k)"
    by (simp add: st seek_loop_eq k_def i_def [symmetric] ii)
  have ds: "docstring s' = docstring s" by (simp add: st)
  have kle: "k \<le> length (drop (Suc i) (docstring s))"
    unfolding k_def by (rule length_takeWhile_le)
  then have "Suc i + k \<le> length (docstring s)" using lt by simp
  then have c: "cursor_ok s'" by (simp add: cursor_ok_def idx ds)
  have "\<not> header_at (docstring s) j" if j: "j < Suc i + k" for j
  proof -
    consider "j < i" | "j = i" | "Suc i \<le> j" by linarith
    then show ?thesis
    proof cases
      case 1
      then show ?thesis using sc by (simp add: scanned_def i_def)
    next
      case 2
      then show ?thesis using nh by (simp add: i_def)
    next
      case 3
      then have jk: "j - Suc i < k" using j by simp
      then have "is_empty (takeWhile is_empty (drop (Suc i) (docstring s)) ! (j - Suc i))"
        unfolding k_def by (metis nth_mem set_takeWhileD)
      then have "is_empty (drop (Suc i) (docstring s) ! (j - Suc i))"
        using jk unfolding k_def by (simp add: takeWhile_nth)
      moreover have "Suc i + (j - Suc i) < length (docstring s)"
        using jk kle by simp
      ultimately have "is_empty (docstring s ! j)" using 3 by simp
      then show ?thesis by (rule header_at_blank)
    qed
  qed
  then have "scanned s'" by (simp add: scanned_def idx ds)
  with c show ?thesis by simp
qed

lemma header_step_keeps:
  assumes ok: "cursor_ok s" and sc: "scanned s"
    and h: "header_at (docstring s) (nat (index s))"
    and st: "s' = s\<lparr>docstring := take (nat (index s)) (docstring s) @ [rubric_line l, []] @ rest,
                    index := index s + 2\<rparr>"
  shows "cursor_ok s' \<and> scanned s'"
proof -
  define i where "i = nat (index s)"
  define ds where "ds = docstring s"
  have ii: "index s = int i" using ok by (simp add: i_def cursor_ok_def)
  have nx: "Suc i < length ds" using h unfolding i_def ds_def by (rule header_at_next)
  have ds': "docstring s' = take i ds @ [rubric_line l, []] @ rest"
    by (simp add: st i_def ds_def)
  have idx: "index s' = int (i + 2)" by (simp add: st ii)
  have lent: "length (take i ds) = i" using nx by simp
  have len: "length (docstring s') = i + 2 + length rest" using lent by (simp add: ds')
  have c: "cursor_ok s'" by (simp add: cursor_ok_def idx len)
  have at_i: "docstring s' ! i = rubric_line l"
    using lent by (simp add: ds' nth_append)
  have at_Si: "docstring s' ! Suc i = []"
    using lent by (simp add: ds' nth_append)
  have before: "docstring s' ! j = ds ! j" if "j < i" for j
    using that lent by (simp add: ds' nth_append)
  have "\<not> header_at (docstring s') j" if j: "j < i + 2" for j
  proof -
    consider "Suc j < i" | "Suc j = i" | "j = i" | "j = Suc i" using j by linarith
    then show ?thesis
    proof cases
      case 1
      then have "header_at (docstring s') j = header_at ds j"
        using nx len before by (intro header_at_cong) simp_all
      moreover have "\<not> header_at ds j" using sc 1 by (simp add: scanned_def i_def ds_def)
      ultimately show ?thesis by simp
    next
      case 2
      then show ?thesis using at_i len by (intro header_at_rubric_next [of _ _ l]) simp_all
    next
      case 3
      then show ?thesis using at_Si len by (intro header_at_blank_next) simp_all
    next
      case 4
      then show ?thesis using at_Si by (intro header_at_blank) (simp add: is_empty_def)
    qed
  qed
  then have "scanned s'" by (simp add: scanned_def idx)
  with c show ?thesis by simp
qed

lemma parse_step_keeps:
  assumes "cursor_ok s" and "scanned s" and "\<not> eol s" and "parse_step s = Inr (u, s')"
  shows "cursor_ok s' \<and> scanned s'"
proof (cases "header_at (docstring s) (nat (index s))")
  case True
  from assms(1) have nn: "0 \<le> index s" by (simp add: cursor_ok_def)
  from assms(4) parse_step_header [OF nn True]
  have "s' = s\<lparr>docstring := take (nat (index s)) (docstring s)
                  @ [rubric_line (docstring s ! nat (index s)), []]
                  @ (if is_empty (line_after s 2)
                     then drop (nat (index s) + 3) (docstring s)
                     else drop (nat (index s) + 2) (docstring s)),
                index := index s + 2\<rparr>"
    by (simp split: if_splits)
  with assms(1,2) True show ?thesis by (rule header_step_keeps)
next
  case False
  from assms(1) have nn: "0 \<le> index s" by (simp add: cursor_ok_def)
  from assms(4) parse_step_no_header [OF nn False]
  have "s' = s\<lparr>index := seek_loop (drop (Suc (nat (index s))) (docstring s)) (index s + 1)\<rparr>"
    by simp
  with assms(1,2,3) False show ?thesis by (rule no_header_step_keeps)
qed

lemma parse_loop_keeps:
  "cursor_ok s \<Longrightarrow> scanned s \<Longrightarrow> parse_loop s = Inr (u, s') \<Longrightarrow>
     cursor_ok s' \<and> scanned s' \<and> eol s'"
proof (induction s rule: parse_loop.induct)
  case (1 s)
  show ?case
  proof (cases "eol s")
    case True
    with "1.prems" show ?thesis by (simp add: parse_loop.simps)
  next
    case False
    with "1.prems"(3) obtain v t where st: "parse_step s = Inr (v, t)"
      and lp: "parse_loop t = Inr (u, s')"
      by (subst (asm) parse_loop.simps) (auto split: sum.splits)
    from parse_step_keeps [OF "1.prems"(1,2) False st]
    have "cursor_ok t" and "scanned t" by simp_all
    with "1.IH" [OF False st refl] lp show ?thesis by simp
  qed
qed

lemma scanned_eol_header_free: "scanned s \<Longrightarrow> eol s \<Longrightarrow> header_free (docstring s)"
  by (auto simp: scanned_def eol_def header_free_def list_all_iff)

lemma parse_loop_header_free:
  "0 \<le> index s \<Longrightarrow> header_free (docstring s) \<Longrightarrow>
     \<exists>j. parse_loop s = Inr ((), s\<lparr>index := j\<rparr>)"
proof (induction s rule: parse_loop.induct)
  case (1 s)
  show ?case
  proof (cases "eol s")
    case True
    then have "parse_loop s = Inr ((), s\<lparr>index := index s\<rparr>)" by (simp add: parse_loop.simps)
    then show ?thesis by blast
  next
    case False
    then have "nat (index s) < length (docstring s)" using "1.prems"(1) by (simp add: eol_def)
    with "1.prems"(2) have nh: "\<not> header_at (docstring s) (nat (index s))"
      by (simp add: header_free_def list_all_iff)
    define t where "t = s\<lparr>index := seek_loop (drop (Suc (nat (index s))) (docstring s)) (index s + 1)\<rparr>"
    have st: "parse_step s = Inr ((), t)"
      unfolding t_def using "1.prems"(1) nh by (rule parse_step_no_header)
    have "index s + 1 \<le> index t" by (simp add: t_def seek_loop_ge)
    then have "0 \<le> index t" using "1.prems"(1) by simp
    moreover have "header_free (docstring t)" using "1.prems"(2) by (simp add: t_def)
    ultimately obtain j where "parse_loop t = Inr ((), t\<lparr>index := j\<rparr>)"
      using "1.IH" [OF False st refl] by blast
    then have "parse_loop s = Inr ((), s\<lparr>index := j\<rparr>)"
      using False st by (subst parse_loop.simps) (simp add: t_def)
    then show ?thesis by blast
  qed
qed

lemma seek_start_keeps:
  assumes "s1 = s\<lparr>index := seek_loop (docstring s) 0\<rparr>"
  shows "cursor_ok s1 \<and> scanned s1"
proof -
  define k where "k = length (takeWhile is_empty (docstring s))"
  have idx: "index s1 = int k" and ds: "docstring s1 = docstring s"
    by (simp_all add: assms seek_loop_eq k_def)
  have kle: "k \<le> length (docstring s)" unfolding k_def by (rule length_takeWhile_le)
  have "\<not> header_at (docstring s) j" if "j < k" for j
  proof -
    have "is_empty (takeWhile is_empty (docstring s) ! j)"
      using that unfolding k_def by (metis nth_mem set_takeWhileD)
    then have "is_empty (docstring s ! j)"
      using that unfolding k_def by (simp add: takeWhile_nth)
    then show ?thesis by (rule header_at_blank)
  qed
  then show ?thesis using kle by (simp add: cursor_ok_def scanned_def idx ds)
qed

lemma parse_start:
  "parse s = parse_loop (s\<lparr>index := seek_loop (docstring s) 0\<rparr>)"
  by (simp add: parse_def seek_eq)

lemma base_doc_header_free:
  assumes "header_free lines"
  shows "base_doc lines hdrs = Inr lines"
proof -
  define s1 where "s1 = \<lparr>docstring = lines, index = seek_loop lines 0, headers = hdrs\<rparr>"
  have "0 \<le> index s1" by (simp add: s1_def seek_loop_ge)
  moreover have "header_free (docstring s1)" using assms by (simp add: s1_def)
  ultimately obtain j where "parse_loop s1 = Inr ((), s1\<lparr>index := j\<rparr>)"
    using parse_loop_header_free by blast
  then show ?thesis by (simp add: base_doc_def parse_start s1_def)
qed

lemma base_doc_output_header_free:
  assumes "base_doc lines hdrs = Inr out"
  shows "header_free out"
proof -
  define s1 where "s1 = \<lparr>docstring = lines, index = seek_loop lines 0, headers = hdrs\<rparr>"
  from assms obtain u s' where lp: "parse_loop s1 = Inr (u, s')" and out: "out = docstring s'"
    by (auto simp: base_doc_def parse_start s1_def split: sum.splits)
  have "cursor_ok s1 \<and> scanned s1"
    by (rule seek_start_keeps [of _ "\<lparr>docstring = lines, index = 0, headers = hdrs\<rparr>"])
      (simp add: s1_def)
  with lp have "scanned s' \<and> eol s'" using parse_loop_keeps by blast
  then show ?thesis unfolding out using scanned_eol_header_free by blast
qed

text \<open>
  Claim C9. When no position of a list of lines is recognised as a section header, the
  transformation returns the list as it is. The lines that a transformation returns have no
  position recognised as a header, so transforming them again returns them unchanged.
\<close>

theorem transform_fixed_point:
  "(header_free lines \<longrightarrow> base_doc lines hdrs = Inr lines)
   \<and> (base_doc lines hdrs = Inr out \<longrightarrow> header_free out \<and> base_doc out hdrs = Inr out)"
  using base_doc_header_free base_doc_output_header_free by blast

lemma eval_run:
  "base_doc [''Intro'', ''Foo'', ''---'', ''text''] Map.empty
     = Inr [''Intro'', ''.. rubric:: Foo'', [], ''text'']"
  by code_simp

theorem transform_fixed_point_witness:
  "base_doc [''Intro'', ''Foo'', ''---'', ''text''] Map.empty
     = Inr [''Intro'', ''.. rubric:: Foo'', [], ''text'']
   \<and> header_free [''Intro'', ''.. rubric:: Foo'', [], ''text'']
   \<and> base_doc [''Intro'', ''.. rubric:: Foo'', [], ''text''] Map.empty
     = Inr [''Intro'', ''.. rubric:: Foo'', [], ''text'']"
  using transform_fixed_point [of "[''Intro'', ''Foo'', ''---'', ''text'']" Map.empty
      "[''Intro'', ''.. rubric:: Foo'', [], ''text'']"]
    transform_fixed_point [of "[''Intro'', ''.. rubric:: Foo'', [], ''text'']" Map.empty
      "[''Intro'', ''.. rubric:: Foo'', [], ''text'']"]
    eval_run
  by blast

section \<open>The cursor along a parse run\<close>

lemma parse_step_states_no_header:
  assumes "0 \<le> index s" and "\<not> header_at (docstring s) (nat (index s))"
  shows "parse_step_states s =
     [s, s\<lparr>index := index s + 1\<rparr>,
      s\<lparr>index := seek_loop (drop (Suc (nat (index s))) (docstring s)) (index s + 1)\<rparr>]"
proof -
  obtain r where "is_section s = Inr (r, s)" and "\<not> truthy r"
    using is_section_truthy [OF assms(1)] assms(2) by blast
  then show ?thesis
    using assms(1) by (simp add: parse_step_states_def seek_eq nat_add_distrib Let_def)
qed

lemma refactor_header_states_eq:
  assumes "0 \<le> index s" and "Suc (nat (index s)) < length (docstring s)"
  shows "refactor_header_states header s =
     [s,
      s\<lparr>docstring := take (nat (index s)) (docstring s) @ drop (nat (index s) + 2) (docstring s)\<rparr>,
      s\<lparr>docstring := take (nat (index s)) (docstring s)
            @ [get_indent (docstring s ! nat (index s)) @ ''.. rubric:: '' @ strip_quotes (repr header), []]
            @ drop (nat (index s) + 2) (docstring s)\<rparr>,
      s\<lparr>docstring := take (nat (index s)) (docstring s)
            @ [get_indent (docstring s ! nat (index s)) @ ''.. rubric:: '' @ strip_quotes (repr header), []]
            @ drop (nat (index s) + 2) (docstring s),
         index := index s + 2\<rparr>]"
proof -
  have lt: "index s < int (length (docstring s))" using assms by linarith
  have p: "peek 0 s = Inr (docstring s ! nat (index s), s)"
    using assms(1) lt by (simp add: peek_line_after line_after_def)
  have del: "py_del_slice (docstring s) (index s) (index s + 2)
      = take (nat (index s)) (docstring s) @ drop (nat (index s) + 2) (docstring s)"
    using assms(1) by (simp add: py_del_slice_nonneg nat_add_distrib)
  show ?thesis
    by (simp add: refactor_header_states_def p remove_lines_def insert_lines_def Let_def
        replace_two_lines [OF assms] del: foldl.simps rev.simps) (simp add: del)
qed

lemma blank_removal_eq:
  "0 \<le> index s \<Longrightarrow>
     (if is_empty (line_after s 2) then remove_lines (index s + 2) 1 s else Inr ((), s))
       = Inr ((), after_blank_removal s)"
  by (simp add: after_blank_removal_def remove_lines_def py_del_slice_nonneg nat_add_distrib
      add.commute)

lemma after_blank_removal_simps [simp]:
  "index (after_blank_removal s) = index s"
  "headers (after_blank_removal s) = headers s"
  by (simp_all add: after_blank_removal_def)

lemma after_blank_removal_length:
  "Suc (nat (index s)) < length (docstring s) \<Longrightarrow>
     Suc (nat (index s)) < length (docstring (after_blank_removal s))"
  by (auto simp: after_blank_removal_def)

lemma parse_step_states_header:
  assumes "0 \<le> index s" and "header_at (docstring s) (nat (index s))"
  shows "parse_step_states s =
     s # s # after_blank_removal s
       # refactor_states (strip (docstring s ! nat (index s))) (after_blank_removal s)"
proof -
  have sec: "is_section s = Inr (Some (strip (docstring s ! nat (index s))), s)"
    using is_section_truthy [OF assms(1)] assms(2) by auto
  have tr: "truthy (Some (strip (docstring s ! nat (index s))))"
    using is_section_truthy [OF assms(1)] assms(2) sec by auto
  have p2: "peek 2 s = Inr (line_after s 2, s)"
    using assms(1) by (simp add: peek_line_after)
  show ?thesis
    using tr by (simp add: parse_step_states_def sec p2 blank_removal_eq [OF assms(1)])
qed

lemma parse_step_header_refactor:
  assumes "0 \<le> index s" and "header_at (docstring s) (nat (index s))"
  shows "parse_step s = refactor (strip (docstring s ! nat (index s))) (after_blank_removal s)"
proof -
  have sec: "is_section s = Inr (Some (strip (docstring s ! nat (index s))), s)"
    using is_section_truthy [OF assms(1)] assms(2) by auto
  have tr: "truthy (Some (strip (docstring s ! nat (index s))))"
    using is_section_truthy [OF assms(1)] assms(2) sec by auto
  have p2: "peek 2 s = Inr (line_after s 2, s)"
    using assms(1) by (simp add: peek_line_after)
  show ?thesis
    using tr by (simp add: parse_step_def sec p2 blank_removal_eq [OF assms(1)])
qed

lemma refactor_header_states_ok:
  assumes "cursor_ok s" and "Suc (nat (index s)) < length (docstring s)"
  shows "\<forall>t \<in> set (refactor_header_states header s). cursor_ok t"
proof -
  from assms(1) have nn: "0 \<le> index s" by (simp add: cursor_ok_def)
  have "length (take (nat (index s)) (docstring s)) = nat (index s)"
    using assms(2) by simp
  then show ?thesis
    using assms nn by (auto simp: refactor_header_states_eq [OF nn assms(2)] cursor_ok_def)
qed

lemma refactor_header_states_last:
  assumes "0 \<le> index s" and "Suc (nat (index s)) < length (docstring s)"
    and "refactor_header header s = Inr (d, s')"
  shows "last (refactor_header_states header s) = s'"
  using assms(3)
  by (auto simp: refactor_header_states_eq [OF assms(1,2)] refactor_header_eq [OF assms(1,2)])

lemma parse_step_states_ok:
  assumes "cursor_ok s" and "\<not> eol s"
  shows "\<forall>t \<in> set (parse_step_states s). cursor_ok t"
proof (cases "header_at (docstring s) (nat (index s))")
  case True
  from assms(1) have nn: "0 \<le> index s" by (simp add: cursor_ok_def)
  have nx: "Suc (nat (index s)) < length (docstring s)" using True by (rule header_at_next)
  then have nx': "Suc (nat (index (after_blank_removal s))) < length (docstring (after_blank_removal s))"
    using after_blank_removal_length by simp
  then have ok': "cursor_ok (after_blank_removal s)"
    using nn by (simp add: cursor_ok_def)
  have "\<forall>t \<in> set (refactor_states h (after_blank_removal s)). cursor_ok t" for h
    using refactor_header_states_ok [OF ok' nx'] by (auto simp: refactor_states_def Let_def)
  then show ?thesis
    using assms(1) ok' by (simp add: parse_step_states_header [OF nn True])
next
  case False
  from assms have nn: "0 \<le> index s" and lt: "index s < int (length (docstring s))"
    by (simp_all add: cursor_ok_def eol_def)
  define k where "k = length (takeWhile is_empty (drop (Suc (nat (index s))) (docstring s)))"
  have "k \<le> length (drop (Suc (nat (index s))) (docstring s))"
    unfolding k_def by (rule length_takeWhile_le)
  then have "index s + 1 + int k \<le> int (length (docstring s))" using lt nn by simp
  then show ?thesis
    using assms(1) nn lt
    by (simp add: parse_step_states_no_header [OF nn False] cursor_ok_def seek_loop_eq
        k_def [symmetric])
qed

lemma parse_step_states_last:
  assumes "0 \<le> index s" and "parse_step s = Inr (u, s')"
  shows "parse_step_states s \<noteq> [] \<and> last (parse_step_states s) = s'"
proof (cases "header_at (docstring s) (nat (index s))")
  case True
  have nx: "Suc (nat (index s)) < length (docstring s)" using True by (rule header_at_next)
  then have nx': "Suc (nat (index (after_blank_removal s))) < length (docstring (after_blank_removal s))"
    using after_blank_removal_length by simp
  have nn': "0 \<le> index (after_blank_removal s)" using assms(1) by simp
  from assms(2) obtain d where ok: "refactor_header (strip (docstring s ! nat (index s)))
        (after_blank_removal s) = Inr (d, s')"
    and post: "(case headers s (strip (docstring s ! nat (index s))) of
          None \<Rightarrow> ''header'' | Some p \<Rightarrow> p) = ''header''"
    by (auto simp: parse_step_header_refactor [OF assms(1) True] refactor_def Let_def
        split: if_splits sum.splits)
  have ne: "refactor_header_states (strip (docstring s ! nat (index s))) (after_blank_removal s) \<noteq> []"
    by (simp add: refactor_header_states_eq [OF nn' nx'])
  show ?thesis
    using refactor_header_states_last [OF nn' nx' ok] ne post
    by (simp add: parse_step_states_header [OF assms(1) True] refactor_states_def Let_def)
next
  case False
  then show ?thesis
    using assms(2)
    by (simp add: parse_step_states_no_header [OF assms(1) False]
        parse_step_no_header [OF assms(1) False])
qed

lemma parse_step_cursor_ok:
  assumes "cursor_ok s" and "\<not> eol s" and "parse_step s = Inr (u, s')"
  shows "cursor_ok s'"
proof -
  from assms(1) have nn: "0 \<le> index s" by (simp add: cursor_ok_def)
  from parse_step_states_last [OF nn assms(3)]
  have "s' \<in> set (parse_step_states s)" by (metis last_in_set)
  with parse_step_states_ok [OF assms(1,2)] show ?thesis by blast
qed

lemma parse_loop_states_ok:
  "cursor_ok s \<Longrightarrow> \<forall>t \<in> set (parse_loop_states s). cursor_ok t"
proof (induction s rule: parse_loop_states.induct)
  case (1 s)
  show ?case
  proof (cases "eol s")
    case True
    then show ?thesis by (simp add: parse_loop_states.simps)
  next
    case False
    show ?thesis
    proof (cases "parse_step s")
      case (Inl e)
      then show ?thesis
        using False parse_step_states_ok [OF "1.prems" False]
        by (simp add: parse_loop_states.simps)
    next
      case (Inr r)
      obtain u s' where r: "r = (u, s')" by (cases r)
      with Inr have st: "parse_step s = Inr (u, s')" by simp
      have "cursor_ok s'" using "1.prems" False st by (rule parse_step_cursor_ok)
      then have "\<forall>t \<in> set (parse_loop_states s'). cursor_ok t"
        using "1.IH" [OF False Inr r [symmetric]] by simp
      then show ?thesis
        using False st parse_step_states_ok [OF "1.prems" False]
        by (subst parse_loop_states.simps) auto
    qed
  qed
qed

lemma parse_loop_states_last:
  "cursor_ok s \<Longrightarrow> parse_loop s = Inr (u, s') \<Longrightarrow> last (s # parse_loop_states s) = s'"
proof (induction s rule: parse_loop.induct)
  case (1 s)
  show ?case
  proof (cases "eol s")
    case True
    with "1.prems" show ?thesis by (simp add: parse_loop.simps parse_loop_states.simps)
  next
    case False
    with "1.prems"(2) obtain v t where st: "parse_step s = Inr (v, t)"
      and lp: "parse_loop t = Inr (u, s')"
      by (subst (asm) parse_loop.simps) (auto split: sum.splits)
    from "1.prems"(1) have nn: "0 \<le> index s" by (simp add: cursor_ok_def)
    have ok: "cursor_ok t" using "1.prems"(1) False st by (rule parse_step_cursor_ok)
    have l: "last (t # parse_loop_states t) = s'"
      using "1.IH" [OF False st refl ok lp] .
    have ne: "parse_step_states s \<noteq> []" and la: "last (parse_step_states s) = t"
      using parse_step_states_last [OF nn st] by simp_all
    have "parse_loop_states s = parse_step_states s @ parse_loop_states t"
      using False st by (subst parse_loop_states.simps) simp
    then show ?thesis using ne la l by (cases "parse_loop_states t = []") simp_all
  qed
qed

lemma parse_states_ok: "\<forall>t \<in> set (parse_states s). cursor_ok t"
proof -
  define s1 where "s1 = s\<lparr>index := seek_loop (docstring s) 0\<rparr>"
  have ok1: "cursor_ok s1" using seek_start_keeps [of s1 s] by (simp add: s1_def)
  have "parse_states s = s\<lparr>index := 0\<rparr> # s1 # parse_loop_states s1"
    by (simp add: parse_states_def seek_eq s1_def Let_def)
  moreover have "cursor_ok (s\<lparr>index := 0\<rparr>)" by (simp add: cursor_ok_def)
  ultimately show ?thesis using ok1 parse_loop_states_ok [OF ok1] by simp
qed

lemma parse_states_end: "parse s = Inr (u, s') \<Longrightarrow> last (parse_states s) = s'"
proof -
  assume p: "parse s = Inr (u, s')"
  define s1 where "s1 = s\<lparr>index := seek_loop (docstring s) 0\<rparr>"
  have ok1: "cursor_ok s1" using seek_start_keeps [of s1 s] by (simp add: s1_def)
  have "parse_states s = s\<lparr>index := 0\<rparr> # s1 # parse_loop_states s1"
    by (simp add: parse_states_def seek_eq s1_def Let_def)
  moreover have "last (s1 # parse_loop_states s1) = s'"
    using p ok1 by (intro parse_loop_states_last) (simp_all add: parse_start s1_def)
  ultimately show ?thesis by simp
qed

lemma get_next_block_cursor_ok:
  assumes "cursor_ok s" and "\<not> eol s"
  shows "\<exists>field s'. get_next_block s = Inr (field, s') \<and> cursor_ok s'"
proof -
  from assms have nn: "0 \<le> index s" and lt: "nat (index s) < length (docstring s)"
    by (simp_all add: cursor_ok_def eol_def)
  then have "length (take (nat (index s)) (docstring s)) = nat (index s)" by simp
  then show ?thesis
    using nn by (simp add: get_next_block_eq [OF nn assms(2)] Let_def cursor_ok_def)
qed

text \<open>
  Claim C1, amended. Every state that a run of \<^verbatim>\<open>parse\<close> goes through, from the assignment
  \<^verbatim>\<open>index = 0\<close> on and after each operation (the seeks, \<^verbatim>\<open>is_section\<close>, the removals
  and the insertion, the update of the index in the default header rewrite), has
  \<^verbatim>\<open>0 <= index <= len(docstring)\<close>; so the cursor of a state at end of input is the
  length of the buffer. \<^verbatim>\<open>get_next_block\<close>, which \<^verbatim>\<open>parse\<close> of \<^verbatim>\<open>BaseDoc\<close> itself does
  not reach, returns a state with the invariant when called, as one operation, in a state
  with the invariant that is not at end of input.
\<close>

theorem cursor_invariant_throughout:
  "(\<forall>t \<in> set (parse_states s).
      cursor_ok t \<and> (eol t \<longrightarrow> index t = int (length (docstring t))))
   \<and> (cursor_ok s \<and> \<not> eol s \<longrightarrow>
        (\<exists>field s'. get_next_block s = Inr (field, s') \<and> cursor_ok s'))"
  using parse_states_ok [of s] get_next_block_cursor_ok [of s]
  by (auto simp: cursor_ok_def eol_def)

lemma eval_parse_states:
  "map (\<lambda>t. (docstring t, index t))
     (parse_states \<lparr>docstring = [''Foo'', ''---''], index = 0, headers = Map.empty\<rparr>)
   = [([''Foo'', ''---''], 0), ([''Foo'', ''---''], 0), ([''Foo'', ''---''], 0),
      ([''Foo'', ''---''], 0), ([''Foo'', ''---''], 0), ([''Foo'', ''---''], 0),
      ([], 0), ([''.. rubric:: Foo'', []], 0), ([''.. rubric:: Foo'', []], 2)]"
  by code_simp

theorem cursor_invariant_throughout_witness:
  "list_all cursor_ok
     (parse_states \<lparr>docstring = [''Foo'', ''---''], index = 0, headers = Map.empty\<rparr>)
   \<and> map (\<lambda>t. (docstring t, index t))
       (parse_states \<lparr>docstring = [''Foo'', ''---''], index = 0, headers = Map.empty\<rparr>)
     = [([''Foo'', ''---''], 0), ([''Foo'', ''---''], 0), ([''Foo'', ''---''], 0),
        ([''Foo'', ''---''], 0), ([''Foo'', ''---''], 0), ([''Foo'', ''---''], 0),
        ([], 0), ([''.. rubric:: Foo'', []], 0), ([''.. rubric:: Foo'', []], 2)]
   \<and> cursor_ok \<lparr>docstring = [''a'', ''b''], index = 1, headers = Map.empty\<rparr>
   \<and> \<not> eol \<lparr>docstring = [''a'', ''b''], index = 1, headers = Map.empty\<rparr>
   \<and> (\<exists>field s'. get_next_block \<lparr>docstring = [''a'', ''b''], index = 1, headers = Map.empty\<rparr>
          = Inr (field, s') \<and> cursor_ok s')"
  using cursor_invariant_throughout
      [of "\<lparr>docstring = [''Foo'', ''---''], index = 0, headers = Map.empty\<rparr>"]
    cursor_invariant_throughout
      [of "\<lparr>docstring = [''a'', ''b''], index = 1, headers = Map.empty\<rparr>"]
    eval_parse_states
  by (simp add: list_all_iff cursor_ok_def eol_def)

lemma get_next_block_states_last:
  "get_next_block s = Inr (field, s') \<Longrightarrow> last (get_next_block_states s) = s'"
  by (auto simp: get_next_block_def get_next_block_states_def Let_def remove_lines_def
      split: sum.splits prod.splits)

text \<open>
  Claim C1 as stated fails inside \<^verbatim>\<open>get_next_block\<close>. With the single line \<^verbatim>\<open>a\<close> and
  the cursor at 0, the state after the call of \<^verbatim>\<open>remove_lines\<close> has no line left and the
  cursor at 1; the cursor is set back only by the next statement.
\<close>

theorem cursor_after_remove_counterexample:
  "docstring (get_next_block_states \<lparr>docstring = [''a''], index = 0, headers = Map.empty\<rparr> ! 2) = []
   \<and> index (get_next_block_states \<lparr>docstring = [''a''], index = 0, headers = Map.empty\<rparr> ! 2) = 1
   \<and> \<not> cursor_ok (get_next_block_states \<lparr>docstring = [''a''], index = 0, headers = Map.empty\<rparr> ! 2)"
  by code_simp

end
